theory Spec2Isabelle
  imports Complex_Main "HOL-Library.AList" "HOL-Library.Sublist"
begin

section \<open>Live Interview Mode: data model\<close>

text \<open>
  The development embeds the two Live Interview components of the repository: the
  enhanced component (staggered presenter, quality gate on the audio level) and the basic
  component (\<^verbatim>\<open>src/components/LiveInterview/LiveInterviewMode.tsx\<close>). Definitions of
  the basic component carry the suffix \<open>_basic\<close>.

  JavaScript strings are modelled as \<open>string\<close>: lists of 8-bit characters, that is, texts
  whose UTF-16 code units are below 256. Numbers that the code only compares and adds
  (\<open>Date.now()\<close>, sizes, counters) are \<open>int\<close>; the confidence score and the audio
  level are \<open>real\<close>, the decimal constants of the code taken at their exact value.
\<close>

record GeminiResponse =
  transcription :: string
  answer :: string
  confidence :: real
  timestamp :: int
  id' :: string
  isProcessing :: "bool option"
  isStale :: "bool option"

text \<open>The optional fields \<open>isProcessing?\<close> and \<open>isStale?\<close> are \<open>None\<close> when absent.\<close>

section \<open>Staggered presenter: the visible-list update of a flush\<close>

text \<open>
  Both flush sites of \<open>updateResponsesWithDelay\<close> pass the same updater to
  \<open>setResponses\<close>:
  \<^verbatim>\<open>
  prev => {
    const updatedPrev = prev.length > 15
      ? prev.map((r, i) => i > 10 ? { ...r, isStale: true } : r)
      : prev;
    return [...responsesToAdd, ...updatedPrev].slice(0, 20);
  }\<close>
\<close>

definition updatedPrev :: "GeminiResponse list \<Rightarrow> GeminiResponse list" where
  "updatedPrev prev =
     (if length prev > 15
      then map (\<lambda>(i, r). if i > 10 then r\<lparr>isStale := Some True\<rparr> else r) (enumerate 0 prev)
      else prev)"

definition flushResponses :: "GeminiResponse list \<Rightarrow> GeminiResponse list \<Rightarrow> GeminiResponse list" where
  "flushResponses responsesToAdd prev = take 20 (responsesToAdd @ updatedPrev prev)"

text \<open>The basic component inserts a placeholder with
  \<^verbatim>\<open>prev => [placeholderResponse, ...prev.slice(0, 19)]\<close>.\<close>

definition insertPlaceholder_basic :: "GeminiResponse \<Rightarrow> GeminiResponse list \<Rightarrow> GeminiResponse list" where
  "insertPlaceholder_basic placeholder prev = placeholder # take 19 prev"

section \<open>Strings as JavaScript sees them\<close>

text \<open>
  \<open>\s\<close> in a regular expression and \<open>String.prototype.trim\<close> use the same set:
  WhiteSpace and LineTerminator. Below code unit 256 these are TAB, LF, VT, FF, CR, SP and
  NBSP.
\<close>

definition isWhiteSpace :: "char \<Rightarrow> bool" where
  "isWhiteSpace c =
     (c \<in> set [CHR 0x09, CHR 0x0A, CHR 0x0B, CHR 0x0C, CHR 0x0D, CHR 0x20, CHR 0xA0])"

definition trim :: "string \<Rightarrow> string" where
  "trim s = rev (dropWhile isWhiteSpace (rev (dropWhile isWhiteSpace s)))"

text \<open>\<open>s.includes(t)\<close>: \<open>t\<close> occurs in \<open>s\<close> as a contiguous substring.\<close>

fun includes_str :: "string \<Rightarrow> string \<Rightarrow> bool" where
  "includes_str [] t = (t = [])"
| "includes_str (c # cs) t = (prefix t (c # cs) \<or> includes_str cs t)"

text \<open>\<open>toLowerCase\<close> on code units below 256: \<open>A-Z\<close> and the accented capitals
  \<open>0xC0-0xDE\<close> (without the multiplication sign \<open>0xD7\<close>) move up by 32.\<close>

definition toLowerCase_char :: "char \<Rightarrow> char" where
  "toLowerCase_char c =
     (let n = (of_char c :: nat)
      in if (65 \<le> n \<and> n \<le> 90) \<or> (192 \<le> n \<and> n \<le> 222 \<and> n \<noteq> 215)
         then char_of (n + 32) else c)"

definition toLowerCase :: "string \<Rightarrow> string" where
  "toLowerCase s = map toLowerCase_char s"

text \<open>The text after the first occurrence of a literal marker; \<open>None\<close> when the marker
  does not occur (the regular expression does not match).\<close>

fun afterFirst :: "string \<Rightarrow> string \<Rightarrow> string option" where
  "afterFirst marker [] = (if marker = [] then Some [] else None)"
| "afterFirst marker (c # cs) =
     (if prefix marker (c # cs) then Some (drop (length marker) (c # cs))
      else afterFirst marker cs)"

text \<open>A lazy group \<open>(.*?)\<close> under the \<open>s\<close> flag followed by a lookahead: the shortest
  prefix after which the lookahead holds. Both lookaheads below hold at the end of the
  text (\<open>$\<close>), so the group always matches and the greedy \<open>\s*\<close> in front of it is never
  backtracked into.\<close>

fun lazyUntil :: "(string \<Rightarrow> bool) \<Rightarrow> string \<Rightarrow> string" where
  "lazyUntil lookahead [] = []"
| "lazyUntil lookahead (c # cs) =
     (if lookahead (c # cs) then [] else c # lazyUntil lookahead cs)"

text \<open>\<^verbatim>\<open>(?=\n\s*ANSWER:|$)\<close> of the enhanced component and \<^verbatim>\<open>(?=ANSWER:|$)\<close> of the
  basic one.\<close>

definition lookaheadAnswer :: "string \<Rightarrow> bool" where
  "lookaheadAnswer s =
     (case s of
        [] \<Rightarrow> True
      | c # r \<Rightarrow> c = CHR 0x0A \<and> prefix ''ANSWER:'' (dropWhile isWhiteSpace r))"

definition lookaheadAnswer_basic :: "string \<Rightarrow> bool" where
  "lookaheadAnswer_basic s = (s = [] \<or> prefix ''ANSWER:'' s)"

text \<open>\<^verbatim>\<open>content.match(/TRANSCRIPTION:\s*(.*?)(?=\n\s*ANSWER:|$)/s)\<close>, group 1.\<close>

definition transcriptionMatch :: "string \<Rightarrow> string option" where
  "transcriptionMatch content =
     map_option (\<lambda>r. lazyUntil lookaheadAnswer (dropWhile isWhiteSpace r))
       (afterFirst ''TRANSCRIPTION:'' content)"

definition transcriptionMatch_basic :: "string \<Rightarrow> string option" where
  "transcriptionMatch_basic content =
     map_option (\<lambda>r. lazyUntil lookaheadAnswer_basic (dropWhile isWhiteSpace r))
       (afterFirst ''TRANSCRIPTION:'' content)"

text \<open>\<^verbatim>\<open>content.match(/ANSWER:\s*(.*)/s)\<close>, group 1 (the same in both components).\<close>

definition answerMatch :: "string \<Rightarrow> string option" where
  "answerMatch content = map_option (dropWhile isWhiteSpace) (afterFirst ''ANSWER:'' content)"

text \<open>\<open>a || b\<close> on strings: \<open>b\<close> when \<open>a\<close> is undefined or empty.\<close>

definition orElse :: "string option \<Rightarrow> string \<Rightarrow> string" where
  "orElse a b = (case a of None \<Rightarrow> b | Some x \<Rightarrow> if x = [] then b else x)"

section \<open>Response parser\<close>

datatype parsed = Rejected | Accepted GeminiResponse

text \<open>
  The parsing block of the enhanced \<open>processAudioChunk\<close> (from \<^verbatim>\<open>// Enhanced response
  parsing\<close> to the construction of \<open>geminiResponse\<close>). A rejection is one of the two
  \<^verbatim>\<open>setResponses(prev => prev.filter(...)); return;\<close> exits.
\<close>

definition confidenceOf :: "string \<Rightarrow> string \<Rightarrow> string \<Rightarrow> real" where
  "confidenceOf currentLanguage tr an =
     (let c0 = (if length tr > 20 \<and> length an > 30 then 9 / 10 else 7 / 10);
          c1 = (if includes_str tr ''?'' then c0 + 5 / 100 else c0);
          c2 = (if includes_str an (toLowerCase currentLanguage) then c1 + 5 / 100 else c1)
      in c2)"

definition parseResponse :: "string \<Rightarrow> string \<Rightarrow> int \<Rightarrow> string \<Rightarrow> parsed" where
  "parseResponse currentLanguage chunkId now content =
     (if content = [] \<or> includes_str content ''UNCLEAR_AUDIO'' \<or> length content < 20
      then Rejected
      else
        let tr = orElse (map_option trim (transcriptionMatch content)) [];
            an = orElse (map_option trim (answerMatch content)) (trim content)
        in if length tr < 5 \<or> includes_str (toLowerCase tr) ''unclear''
              \<or> includes_str (toLowerCase tr) ''inaudible''
           then Rejected
           else Accepted
             \<lparr>transcription = tr, answer = an,
              confidence = min (confidenceOf currentLanguage tr an) (95 / 100),
              timestamp = now, id' = chunkId,
              isProcessing = Some False, isStale = None\<rparr>)"

text \<open>The parsing block of the basic component.\<close>

definition parseResponse_basic :: "string \<Rightarrow> int \<Rightarrow> string \<Rightarrow> parsed" where
  "parseResponse_basic chunkId now content =
     (if includes_str content ''UNCLEAR_AUDIO''
      then Rejected
      else
        let tr = orElse (map_option trim (transcriptionMatch_basic content))
                   ''Could not transcribe audio'';
            an = orElse (map_option trim (answerMatch content)) ''No response generated''
        in if length tr < 10
           then Rejected
           else Accepted
             \<lparr>transcription = tr, answer = an, confidence = 8 / 10,
              timestamp = now, id' = chunkId,
              isProcessing = Some False, isStale = None\<rparr>)"

section \<open>What a handler sees of its surroundings\<close>

text \<open>
  The handlers are \<open>useCallback\<close> closures: they read the props and state values of the
  render that created them. These captured values are constant while a handler, and the
  interval that keeps calling it, runs. \<open>activeProcessingCount_seen\<close> is the counter as
  the closure of \<open>processAudioChunk\<close> captured it, \<open>audioLevel\<close> the level as the closure
  of \<open>startContinuousRecording\<close> captured it.
\<close>

record captured =
  currentLanguage :: string
  autoScreenshot :: bool
  isScreenCapturing :: bool
  activeProcessingCount_seen :: int
  maxConcurrentProcessing :: int
  minAudioLevel :: real
  audioLevel :: real
  responseUpdateDelay :: int

text \<open>
  How the awaited operations of one \<open>processAudioChunk\<close> call end: the \<open>FileReader\<close>
  read fails; the configuration has no Gemini key; \<open>fetch\<close> rejects; the response is
  not \<open>ok\<close>; \<open>response.json()\<close> rejects; or the body yields the text \<open>content\<close>
  (the empty text when the candidate path is missing). A call whose awaited operation
  never ends has no outcome.
\<close>

datatype outcome =
    ReadFailed
  | ConfigInvalid
  | FetchFailed
  | HttpError int
  | JsonFailed
  | Content string

section \<open>\<open>processAudioChunk\<close> as the sequence of its effects\<close>

datatype effect =
    IncrementActive
  | DecrementActive
  | UpdateResponsesWithDelay GeminiResponse
  | InsertPlaceholder GeminiResponse
  | RemoveResponse string
  | ReplaceResponse string GeminiResponse
  | SetCurrentTranscription string
  | TriggerScreenshot
  | ShowToast string string string
  | DeleteFromQueue string

text \<open>
  \<^item> \<open>IncrementActive\<close>: \<^verbatim>\<open>setActiveProcessingCount(prev => prev + 1)\<close>
  \<^item> \<open>DecrementActive\<close>: \<^verbatim>\<open>setActiveProcessingCount(prev => Math.max(0, prev - 1))\<close>
  \<^item> \<open>UpdateResponsesWithDelay r\<close>: \<^verbatim>\<open>updateResponsesWithDelay(r)\<close>
  \<^item> \<open>InsertPlaceholder r\<close>: \<^verbatim>\<open>setResponses(prev => [r, ...prev.slice(0, 19)])\<close>
  \<^item> \<open>RemoveResponse c\<close>: \<^verbatim>\<open>setResponses(prev => prev.filter(r => r.id !== c))\<close>
  \<^item> \<open>ReplaceResponse c g\<close>: \<^verbatim>\<open>setResponses(prev => prev.map(r => r.id === c ? g : r))\<close>
  \<^item> \<open>SetCurrentTranscription t\<close>: \<^verbatim>\<open>setCurrentTranscription(t)\<close>
  \<^item> \<open>TriggerScreenshot\<close>: \<^verbatim>\<open>window.electronAPI.triggerScreenshot()\<close>, in the enhanced
    component from a 500 ms timer
  \<^item> \<open>ShowToast\<close>: \<^verbatim>\<open>showToast(title, message, kind)\<close>
  \<^item> \<open>DeleteFromQueue c\<close>: \<^verbatim>\<open>delete processingQueueRef.current[c]\<close>
\<close>

definition placeholderResponse :: "string \<Rightarrow> int \<Rightarrow> GeminiResponse" where
  "placeholderResponse chunkId now =
     \<lparr>transcription = ''Analyzing audio...'', answer = ''Processing your question...'',
      confidence = 0, timestamp = now, id' = chunkId,
      isProcessing = Some True, isStale = None\<rparr>"

definition placeholderResponse_basic :: "string \<Rightarrow> int \<Rightarrow> GeminiResponse" where
  "placeholderResponse_basic chunkId now =
     \<lparr>transcription = ''Processing audio...'', answer = ''Generating response...'',
      confidence = 0, timestamp = now, id' = chunkId,
      isProcessing = Some True, isStale = None\<rparr>"

text \<open>The enhanced component. \<open>earlyReturn\<close> is the size check in front of everything
  else; \<open>processAudioChunk_sync\<close> is what runs before the first \<open>await\<close>.\<close>

definition earlyReturn :: "int \<Rightarrow> bool" where
  "earlyReturn audioBlob = (audioBlob < 5000)"

definition processAudioChunk_sync :: "string \<Rightarrow> int \<Rightarrow> effect list" where
  "processAudioChunk_sync chunkId now =
     [IncrementActive, UpdateResponsesWithDelay (placeholderResponse chunkId now)]"

definition processAudioChunk_catch :: "captured \<Rightarrow> string \<Rightarrow> effect list" where
  "processAudioChunk_catch cap chunkId =
     RemoveResponse chunkId #
     (if activeProcessingCount_seen cap \<le> 1
      then [ShowToast ''Error'' ''Audio processing failed - check your Gemini API key'' ''error'']
      else [])"

definition processAudioChunk_try :: "captured \<Rightarrow> string \<Rightarrow> int \<Rightarrow> outcome \<Rightarrow> effect list" where
  "processAudioChunk_try cap chunkId now out =
     (case out of
        Content content \<Rightarrow>
          (case parseResponse (currentLanguage cap) chunkId now content of
             Rejected \<Rightarrow> [RemoveResponse chunkId]
           | Accepted geminiResponse \<Rightarrow>
               [ReplaceResponse chunkId geminiResponse,
                SetCurrentTranscription (transcription geminiResponse)] @
               (if autoScreenshot cap \<and> isScreenCapturing cap
                   \<and> length (transcription geminiResponse) > 10
                then [TriggerScreenshot] else []))
      | _ \<Rightarrow> processAudioChunk_catch cap chunkId)"

definition processAudioChunk_finally :: "string \<Rightarrow> effect list" where
  "processAudioChunk_finally chunkId = [DecrementActive, DeleteFromQueue chunkId]"

text \<open>What runs once the awaited operations have ended: the rest of the \<open>try\<close> block or
  the \<open>catch\<close> block, then \<open>finally\<close>.\<close>

definition processAudioChunk_settle :: "captured \<Rightarrow> string \<Rightarrow> int \<Rightarrow> outcome \<Rightarrow> effect list" where
  "processAudioChunk_settle cap chunkId now out =
     processAudioChunk_try cap chunkId now out @ processAudioChunk_finally chunkId"

text \<open>All effects of one call, from entry to the settlement of its promise; \<open>now\<close> is the
  clock at the call and \<open>now'\<close> the clock at the settlement.\<close>

definition processAudioChunk ::
  "captured \<Rightarrow> int \<Rightarrow> string \<Rightarrow> int \<Rightarrow> outcome \<Rightarrow> int \<Rightarrow> effect list" where
  "processAudioChunk cap audioBlob chunkId now out now' =
     (if earlyReturn audioBlob then []
      else processAudioChunk_sync chunkId now @ processAudioChunk_settle cap chunkId now' out)"

text \<open>
  The basic component: no early return, and the placeholder goes straight to
  \<open>setResponses\<close>. Its \<open>FileReader\<close> promise has no reject path: a failed read throws
  inside the \<open>onloadend\<close> handler and the promise stays pending, so \<open>ReadFailed\<close> is not
  a settlement there (\<open>None\<close>).
\<close>

definition processAudioChunk_sync_basic :: "string \<Rightarrow> int \<Rightarrow> effect list" where
  "processAudioChunk_sync_basic chunkId now =
     [IncrementActive, InsertPlaceholder (placeholderResponse_basic chunkId now)]"

definition processAudioChunk_catch_basic :: "captured \<Rightarrow> string \<Rightarrow> effect list" where
  "processAudioChunk_catch_basic cap chunkId =
     RemoveResponse chunkId #
     (if activeProcessingCount_seen cap \<le> 2
      then [ShowToast ''Error'' ''Failed to process audio chunk'' ''error'']
      else [])"

definition processAudioChunk_try_basic :: "captured \<Rightarrow> string \<Rightarrow> int \<Rightarrow> outcome \<Rightarrow> effect list" where
  "processAudioChunk_try_basic cap chunkId now out =
     (case out of
        Content content \<Rightarrow>
          (case parseResponse_basic chunkId now content of
             Rejected \<Rightarrow> [RemoveResponse chunkId]
           | Accepted geminiResponse \<Rightarrow>
               [ReplaceResponse chunkId geminiResponse,
                SetCurrentTranscription (transcription geminiResponse)] @
               (if autoScreenshot cap \<and> isScreenCapturing cap
                then [TriggerScreenshot] else []))
      | _ \<Rightarrow> processAudioChunk_catch_basic cap chunkId)"

definition processAudioChunk_settle_basic ::
  "captured \<Rightarrow> string \<Rightarrow> int \<Rightarrow> outcome \<Rightarrow> effect list option" where
  "processAudioChunk_settle_basic cap chunkId now out =
     (if out = ReadFailed then None
      else Some (processAudioChunk_try_basic cap chunkId now out @ processAudioChunk_finally chunkId))"

definition processAudioChunk_basic ::
  "captured \<Rightarrow> string \<Rightarrow> int \<Rightarrow> outcome \<Rightarrow> int \<Rightarrow> effect list option" where
  "processAudioChunk_basic cap chunkId now out now' =
     map_option (\<lambda>rest. processAudioChunk_sync_basic chunkId now @ rest)
       (processAudioChunk_settle_basic cap chunkId now' out)"

section \<open>The component's state\<close>

text \<open>
  The first twelve fields are the component's own state (\<open>useState\<close> values and
  \<open>useRef\<close> cells; \<open>stream\<close>, \<open>audioContext\<close> and \<open>recordingInterval\<close> say whether
  the ref holds an open handle). A queue item is the pair of the blob's size and the
  enqueue timestamp, its promise being the call in flight under the same chunk id
  (\<open>generateChunkId\<close> numbers the chunks with a counter that only grows).

  The other fields belong to the runtime or record history:
  \<^item> \<open>flushTimers\<close>: the armed \<open>setTimeout\<close> callbacks of \<open>updateResponsesWithDelay\<close>, as
    (armed at, delay);
  \<^item> \<open>recorders\<close>: the chunk ids of the \<open>MediaRecorder\<close>s still recording;
  \<^item> \<open>inFlight\<close>: the \<open>processAudioChunk\<close> calls whose promise is pending;
  \<^item> \<open>stopWaits\<close>: the pending \<open>Promise.all\<close> of \<open>stopContinuousRecording\<close>, as (the
    calls it was given, those of them not yet settled);
  \<^item> \<open>completedLogs\<close>: one entry per \<open>'All audio processing completed'\<close> log, naming the
    calls that \<open>Promise.all\<close> was given;
  \<^item> \<open>settled\<close>: the calls whose promise has resolved, in order;
  \<^item> \<open>flushTimes\<close>: the clock at every flush;
  \<^item> \<open>clock\<close>: the last \<open>Date.now()\<close> seen.
\<close>

record component =
  responses :: "GeminiResponse list"
  currentTranscription :: string
  activeProcessingCount :: int
  isListening :: bool
  pendingResponses :: "GeminiResponse list"
  lastResponseTime :: int
  processingQueue :: "(string \<times> int \<times> int) list"
  chunkCounter :: int
  continuousRecording :: bool
  recordingInterval :: bool
  stream :: bool
  audioContext :: bool
  flushTimers :: "(int \<times> int) list"
  recorders :: "string list"
  inFlight :: "string list"
  stopWaits :: "(string list \<times> string list) list"
  completedLogs :: "string list list"
  settled :: "string list"
  flushTimes :: "int list"
  clock :: int

definition init :: component where
  "init =
     \<lparr>responses = [], currentTranscription = [], activeProcessingCount = 0,
      isListening = False, pendingResponses = [], lastResponseTime = 0,
      processingQueue = [], chunkCounter = 0, continuousRecording = False,
      recordingInterval = False, stream = False, audioContext = False,
      flushTimers = [], recorders = [], inFlight = [], stopWaits = [],
      completedLogs = [], settled = [], flushTimes = [], clock = 0\<rparr>"

section \<open>Staggered presenter\<close>

text \<open>\<open>updateResponsesWithDelay(newResponse)\<close>, with \<open>now = Date.now()\<close>.\<close>

definition updateResponsesWithDelay ::
  "captured \<Rightarrow> int \<Rightarrow> GeminiResponse \<Rightarrow> component \<Rightarrow> component" where
  "updateResponsesWithDelay cap now newResponse s =
     (let pending = pendingResponses s @ [newResponse]
      in if now - lastResponseTime s \<ge> responseUpdateDelay cap
         then s\<lparr>pendingResponses := [],
                lastResponseTime := now,
                responses := flushResponses pending (responses s),
                flushTimes := flushTimes s @ [now]\<rparr>
         else s\<lparr>pendingResponses := pending,
                flushTimers := flushTimers s @
                  [(now, responseUpdateDelay cap - (now - lastResponseTime s))]\<rparr>)"

text \<open>The callback handed to \<open>setTimeout\<close>, run at clock \<open>now\<close>.\<close>

definition delayedUpdate :: "int \<Rightarrow> component \<Rightarrow> component" where
  "delayedUpdate now s =
     (if length (pendingResponses s) > 0
      then s\<lparr>pendingResponses := [],
             lastResponseTime := now,
             responses := flushResponses (pendingResponses s) (responses s),
             flushTimes := flushTimes s @ [now]\<rparr>
      else s)"

text \<open>A timer fires no earlier than its delay after it was armed. All callbacks are the
  same code, so the first due timer stands for any due timer.\<close>

definition fireFlushTimer :: "int \<Rightarrow> component \<Rightarrow> component" where
  "fireFlushTimer now s =
     (case List.find (\<lambda>(armed, delay). armed + delay \<le> now) (flushTimers s) of
        None \<Rightarrow> s
      | Some tm \<Rightarrow> delayedUpdate now (s\<lparr>flushTimers := remove1 tm (flushTimers s)\<rparr>))"

section \<open>Performing effects\<close>

fun perform :: "captured \<Rightarrow> int \<Rightarrow> effect \<Rightarrow> component \<Rightarrow> component" where
  "perform cap now IncrementActive s =
     s\<lparr>activeProcessingCount := activeProcessingCount s + 1\<rparr>"
| "perform cap now DecrementActive s =
     s\<lparr>activeProcessingCount := max 0 (activeProcessingCount s - 1)\<rparr>"
| "perform cap now (UpdateResponsesWithDelay r) s = updateResponsesWithDelay cap now r s"
| "perform cap now (InsertPlaceholder r) s =
     s\<lparr>responses := insertPlaceholder_basic r (responses s)\<rparr>"
| "perform cap now (RemoveResponse chunkId) s =
     s\<lparr>responses := filter (\<lambda>r. id' r \<noteq> chunkId) (responses s)\<rparr>"
| "perform cap now (ReplaceResponse chunkId g) s =
     s\<lparr>responses := map (\<lambda>r. if id' r = chunkId then g else r) (responses s)\<rparr>"
| "perform cap now (SetCurrentTranscription t) s = s\<lparr>currentTranscription := t\<rparr>"
| "perform cap now TriggerScreenshot s = s"
| "perform cap now (ShowToast title message kind) s = s"
| "perform cap now (DeleteFromQueue chunkId) s =
     s\<lparr>processingQueue := AList.delete chunkId (processingQueue s)\<rparr>"

fun performAll :: "captured \<Rightarrow> int \<Rightarrow> effect list \<Rightarrow> component \<Rightarrow> component" where
  "performAll cap now [] s = s"
| "performAll cap now (e # es) s = performAll cap now es (perform cap now e s)"

section \<open>Recording, admission and settlement\<close>

text \<open>\<^verbatim>\<open>`chunk_${Date.now()}_${++chunkCounterRef.current}`\<close>\<close>

definition digit :: "int \<Rightarrow> char" where
  "digit d = ''0123456789'' ! nat d"

function digits :: "int \<Rightarrow> string" where
  "digits n = (if n < 10 then [digit n] else digits (n div 10) @ [digit (n mod 10)])"
  by pat_completeness auto
termination
  by (relation "measure (\<lambda>n. nat n)") auto

declare digits.simps [simp del]

definition toString :: "int \<Rightarrow> string" where
  "toString i = (if i < 0 then CHR ''-'' # digits (- i) else digits i)"

definition generateChunkId :: "int \<Rightarrow> int \<Rightarrow> string" where
  "generateChunkId now counter = ''chunk_'' @ toString now @ ''_'' @ toString counter"

text \<open>\<open>recordChunk\<close>, enhanced and basic. Of the recorder that it starts, the chunk id is
  kept; the \<open>onstop\<close> handler of the recorder runs later, as an event of its own.\<close>

definition recordChunk :: "captured \<Rightarrow> int \<Rightarrow> component \<Rightarrow> component" where
  "recordChunk cap now s =
     (if \<not> continuousRecording s \<or> \<not> stream s then s
      else if audioLevel cap < minAudioLevel cap then s
      else let counter = chunkCounter s + 1
           in s\<lparr>chunkCounter := counter,
                recorders := recorders s @ [generateChunkId now counter]\<rparr>)"

definition recordChunk_basic :: "int \<Rightarrow> component \<Rightarrow> component" where
  "recordChunk_basic now s =
     (if \<not> continuousRecording s \<or> \<not> stream s then s
      else let counter = chunkCounter s + 1
           in s\<lparr>chunkCounter := counter,
                recorders := recorders s @ [generateChunkId now counter]\<rparr>)"

text \<open>The call \<open>processAudioChunk(audioBlob, chunkId)\<close> up to its first \<open>await\<close>. After
  the early return the promise is already resolved; otherwise the call is in flight.\<close>

definition callProcessAudioChunk ::
  "captured \<Rightarrow> int \<Rightarrow> int \<Rightarrow> string \<Rightarrow> component \<Rightarrow> component" where
  "callProcessAudioChunk cap now audioBlob chunkId s =
     (if earlyReturn audioBlob then s\<lparr>settled := settled s @ [chunkId]\<rparr>
      else (performAll cap now (processAudioChunk_sync chunkId now) s)
             \<lparr>inFlight := inFlight s @ [chunkId]\<rparr>)"

definition callProcessAudioChunk_basic ::
  "captured \<Rightarrow> int \<Rightarrow> string \<Rightarrow> component \<Rightarrow> component" where
  "callProcessAudioChunk_basic cap now chunkId s =
     (performAll cap now (processAudioChunk_sync_basic chunkId now) s)
        \<lparr>inFlight := inFlight s @ [chunkId]\<rparr>"

text \<open>\<open>mediaRecorder.onstop\<close>. \<open>sizes\<close> are the sizes of the \<open>dataavailable\<close> events;
  \<open>ondataavailable\<close> keeps those above zero, and the blob has the size of their sum.
  \<open>Object.keys(processingQueueRef.current).length\<close> is the length of the queue.\<close>

definition shouldProcess :: "captured \<Rightarrow> int \<Rightarrow> component \<Rightarrow> bool" where
  "shouldProcess cap audioBlob s =
     (audioBlob > 8000
      \<and> int (length (processingQueue s)) < maxConcurrentProcessing cap
      \<and> audioLevel cap > minAudioLevel cap)"

definition onstop :: "captured \<Rightarrow> int \<Rightarrow> string \<Rightarrow> int list \<Rightarrow> component \<Rightarrow> component" where
  "onstop cap now chunkId sizes s =
     (let chunks = filter (\<lambda>sz. sz > 0) sizes
      in if length chunks > 0
         then let audioBlob = sum_list chunks
              in if shouldProcess cap audioBlob s
                 then let s' = callProcessAudioChunk cap now audioBlob chunkId s
                      in s'\<lparr>processingQueue :=
                             AList.update chunkId (audioBlob, now) (processingQueue s')\<rparr>
                 else s
         else s)"

definition shouldProcess_basic :: "captured \<Rightarrow> int \<Rightarrow> component \<Rightarrow> bool" where
  "shouldProcess_basic cap audioBlob s =
     (audioBlob > 1000 \<and> int (length (processingQueue s)) < maxConcurrentProcessing cap)"

definition onstop_basic :: "captured \<Rightarrow> int \<Rightarrow> string \<Rightarrow> int list \<Rightarrow> component \<Rightarrow> component" where
  "onstop_basic cap now chunkId sizes s =
     (let chunks = filter (\<lambda>sz. sz > 0) sizes
      in if length chunks > 0
         then let audioBlob = sum_list chunks
              in if shouldProcess_basic cap audioBlob s
                 then let s' = callProcessAudioChunk_basic cap now chunkId s
                      in s'\<lparr>processingQueue :=
                             AList.update chunkId (audioBlob, now) (processingQueue s')\<rparr>
                 else s
         else s)"

text \<open>The promise of the call for \<open>chunkId\<close> resolves: every pending \<open>Promise.all\<close> that
  waits for it moves on, and one whose calls have all settled logs its message.\<close>

definition resolvePromise :: "string \<Rightarrow> component \<Rightarrow> component" where
  "resolvePromise chunkId s =
     (let waits = map (\<lambda>(given, remaining). (given, removeAll chunkId remaining)) (stopWaits s)
      in s\<lparr>inFlight := remove1 chunkId (inFlight s),
           settled := settled s @ [chunkId],
           stopWaits := filter (\<lambda>(given, remaining). remaining \<noteq> []) waits,
           completedLogs := completedLogs s @
             map fst (filter (\<lambda>(given, remaining). remaining = []) waits)\<rparr>)"

text \<open>The awaited operations of the call for \<open>chunkId\<close> end with \<open>out\<close>: the rest of
  \<open>processAudioChunk\<close> runs and its promise resolves (the function catches every error).\<close>

definition settle :: "captured \<Rightarrow> int \<Rightarrow> string \<Rightarrow> outcome \<Rightarrow> component \<Rightarrow> component" where
  "settle cap now chunkId out s =
     (if chunkId \<in> set (inFlight s)
      then resolvePromise chunkId
             (performAll cap now (processAudioChunk_settle cap chunkId now out) s)
      else s)"

definition settle_basic :: "captured \<Rightarrow> int \<Rightarrow> string \<Rightarrow> outcome \<Rightarrow> component \<Rightarrow> component" where
  "settle_basic cap now chunkId out s =
     (if chunkId \<in> set (inFlight s)
      then (case processAudioChunk_settle_basic cap chunkId now out of
              None \<Rightarrow> s
            | Some effects \<Rightarrow> resolvePromise chunkId (performAll cap now effects s))
      else s)"

section \<open>Starting and stopping\<close>

text \<open>\<open>startListening\<close> once \<open>getUserMedia\<close> and \<open>initializeAudioAnalysis\<close> have
  succeeded. The enhanced component calls \<open>startContinuousRecording\<close> from a timer one
  second later, the basic one at once.\<close>

definition startListening :: "component \<Rightarrow> component" where
  "startListening s = s\<lparr>stream := True, audioContext := True, isListening := True\<rparr>"

definition startContinuousRecording :: "component \<Rightarrow> component" where
  "startContinuousRecording s =
     (if \<not> stream s \<or> continuousRecording s then s
      else s\<lparr>continuousRecording := True, recordingInterval := True\<rparr>)"

definition startContinuousRecording_basic :: "int \<Rightarrow> component \<Rightarrow> component" where
  "startContinuousRecording_basic now s =
     (if \<not> stream s \<or> continuousRecording s then s
      else (recordChunk_basic now (s\<lparr>continuousRecording := True\<rparr>))
             \<lparr>recordingInterval := True\<rparr>)"

definition startListening_basic :: "int \<Rightarrow> component \<Rightarrow> component" where
  "startListening_basic now s = startContinuousRecording_basic now (startListening s)"

text \<open>
  \<open>Promise.all(Object.values(queue).map(item => item.promise)).then(log)\<close>: the promise
  of a queue item is pending exactly when its call is in flight. With nothing to wait for
  the message is logged at once.
\<close>

definition awaitQueue :: "component \<Rightarrow> component" where
  "awaitQueue s =
     (let given = map fst (processingQueue s);
          remaining = filter (\<lambda>chunkId. chunkId \<in> set (inFlight s)) given
      in if remaining = []
         then s\<lparr>completedLogs := completedLogs s @ [given]\<rparr>
         else s\<lparr>stopWaits := stopWaits s @ [(given, remaining)]\<rparr>)"

definition stopContinuousRecording :: "component \<Rightarrow> component" where
  "stopContinuousRecording s =
     awaitQueue (s\<lparr>continuousRecording := False,
                   recordingInterval := False,
                   pendingResponses := []\<rparr>)"

definition stopContinuousRecording_basic :: "component \<Rightarrow> component" where
  "stopContinuousRecording_basic s =
     awaitQueue (s\<lparr>continuousRecording := False, recordingInterval := False\<rparr>)"

text \<open>\<open>stopListening\<close>: after the call of \<open>stopContinuousRecording\<close>, which returns
  without waiting, the tracks are stopped and the audio context is closed.\<close>

definition stopListening :: "component \<Rightarrow> component" where
  "stopListening s =
     (stopContinuousRecording s)
       \<lparr>stream := False, audioContext := False, isListening := False,
        currentTranscription := []\<rparr>"

definition stopListening_basic :: "component \<Rightarrow> component" where
  "stopListening_basic s =
     (stopContinuousRecording_basic s)
       \<lparr>stream := False, audioContext := False, isListening := False\<rparr>"

definition clearResponses :: "component \<Rightarrow> component" where
  "clearResponses s = s\<lparr>responses := [], currentTranscription := [], pendingResponses := []\<rparr>"

section \<open>The event loop\<close>

text \<open>
  The component runs on a single-threaded event loop. One event is one run of a handler
  to completion, at clock \<open>now\<close>; an \<open>async\<close> function runs up to its first \<open>await\<close> in
  the event that calls it and, since \<open>processAudioChunk\<close> changes no state between its
  first \<open>await\<close> and the end of its last one, the rest of it is one event, the settlement.
  Functional state updates (\<open>setResponses(prev => ...)\<close>) are applied in the order in
  which they are issued. An event that cannot
  happen in the state (the clock running backwards, the \<open>onstop\<close> of a recorder that is
  not recording, the settlement of a call that is not in flight, a timer that is not due)
  leaves the state as it is. The interval ticks and the start timer are not tracked:
  \<open>RecordChunk\<close> and \<open>StartContinuousRecording\<close> may come at any time, their handlers
  check the refs. In \<open>run\<close> all handlers see the same captured values, as the handlers of
  one recording do; the mounted component, whose settings change and whose closures are
  made at the clicks on its start button, is \<open>runApp\<close> below.
\<close>

datatype event =
    StartListening
  | StartContinuousRecording
  | RecordChunk
  | OnStop string "int list"
  | Settle string outcome
  | FlushTimer
  | StopListening
  | ClearResponses

datatype variant = Enhanced | Basic

fun handle :: "variant \<Rightarrow> captured \<Rightarrow> int \<Rightarrow> event \<Rightarrow> component \<Rightarrow> component" where
  "handle Enhanced cap now StartListening s = startListening s"
| "handle Basic cap now StartListening s = startListening_basic now s"
| "handle Enhanced cap now StartContinuousRecording s = startContinuousRecording s"
| "handle Basic cap now StartContinuousRecording s = startContinuousRecording_basic now s"
| "handle Enhanced cap now RecordChunk s = recordChunk cap now s"
| "handle Basic cap now RecordChunk s = recordChunk_basic now s"
| "handle v cap now (OnStop chunkId sizes) s =
     (if chunkId \<in> set (recorders s)
      then let s' = s\<lparr>recorders := remove1 chunkId (recorders s)\<rparr>
           in (case v of
                 Enhanced \<Rightarrow> onstop cap now chunkId sizes s'
               | Basic \<Rightarrow> onstop_basic cap now chunkId sizes s')
      else s)"
| "handle Enhanced cap now (Settle chunkId out) s = settle cap now chunkId out s"
| "handle Basic cap now (Settle chunkId out) s = settle_basic cap now chunkId out s"
| "handle v cap now FlushTimer s = fireFlushTimer now s"
| "handle Enhanced cap now StopListening s = stopListening s"
| "handle Basic cap now StopListening s = stopListening_basic s"
| "handle Enhanced cap now ClearResponses s = clearResponses s"
| "handle Basic cap now ClearResponses s = s"

definition step :: "variant \<Rightarrow> captured \<Rightarrow> int \<times> event \<Rightarrow> component \<Rightarrow> component" where
  "step v cap ev s =
     (if fst ev < clock s then s else handle v cap (fst ev) (snd ev) (s\<lparr>clock := fst ev\<rparr>))"

fun run :: "variant \<Rightarrow> captured \<Rightarrow> component \<Rightarrow> (int \<times> event) list \<Rightarrow> component" where
  "run v cap s [] = s"
| "run v cap s (ev # evs) = run v cap (step v cap ev s) evs"

section \<open>Bookkeeping of settled calls\<close>

text \<open>
  What the stop bookkeeping keeps true: a call with a queue entry is in flight or has
  settled; a pending \<open>Promise.all\<close> was given only calls that it still waits for or that
  have settled; a logged completion was given only calls that have settled.
\<close>

definition settledBookkeeping :: "component \<Rightarrow> bool" where
  "settledBookkeeping s \<longleftrightarrow>
     (\<forall>k \<in> fst ` set (processingQueue s). k \<in> set (inFlight s) \<or> k \<in> set (settled s))
     \<and> (\<forall>w \<in> set (stopWaits s). set (fst w) \<subseteq> set (snd w) \<union> set (settled s))
     \<and> (\<forall>given \<in> set (completedLogs s). set given \<subseteq> set (settled s))"

text \<open>
  What keeps the chunk ids apart: the counter is not negative; every recorder and every
  call in flight carries an id made by \<open>generateChunkId\<close> from a counter value that has
  been reached; no id belongs to two of them; every call in flight has its queue entry.
\<close>

definition chunkIds :: "component \<Rightarrow> bool" where
  "chunkIds s \<longleftrightarrow>
     0 \<le> chunkCounter s
     \<and> (\<forall>c \<in> set (recorders s) \<union> set (inFlight s).
           \<exists>n k. c = generateChunkId n k \<and> 0 \<le> k \<and> k \<le> chunkCounter s)
     \<and> distinct (recorders s @ inFlight s)
     \<and> set (inFlight s) \<subseteq> fst ` set (processingQueue s)"

section \<open>Renders and closures\<close>

text \<open>
  The values that the handlers capture come from a render: the props and \<open>useState\<close>
  values at the time of the click that started the recording. \<open>initialRender\<close> holds the
  initial values of either component (the basic one has no \<open>minAudioLevel\<close> and no
  \<open>responseUpdateDelay\<close>; its handlers read neither).
\<close>

definition initialRender :: "variant \<Rightarrow> string \<Rightarrow> captured" where
  "initialRender v language =
     \<lparr>currentLanguage = language, autoScreenshot = True, isScreenCapturing = False,
      activeProcessingCount_seen = 0,
      maxConcurrentProcessing = (case v of Enhanced \<Rightarrow> 2 | Basic \<Rightarrow> 3),
      minAudioLevel = (case v of Enhanced \<Rightarrow> 2 / 100 | Basic \<Rightarrow> 0),
      audioLevel = 0,
      responseUpdateDelay = (case v of Enhanced \<Rightarrow> 1500 | Basic \<Rightarrow> 0)\<rparr>"

text \<open>
  The mounted component: its state and refs (\<open>cstate\<close>), the settings of the latest render,
  and the closures that are waiting or in use:
  \<^item> \<open>clicks\<close>: the calls of \<open>startListening\<close> that wait for \<open>getUserMedia\<close>; each runs with
    the values of the render in which the button was clicked;
  \<^item> \<open>startTimers\<close>: the armed 1000 ms timers of the enhanced \<open>startListening\<close>, which call
    the \<open>startContinuousRecording\<close> of the same render;
  \<^item> \<open>chunkTimers\<close>: the armed 500 ms timers of the enhanced \<open>startContinuousRecording\<close>,
    which call its \<open>recordChunk\<close>;
  \<^item> \<open>intervalClosure\<close>: the values that the \<open>recordChunk\<close> of the running interval sees;
  \<^item> \<open>closureOf\<close>: for every recorder, the values that its \<open>onstop\<close> handler and the
    \<open>processAudioChunk\<close> that it calls see (those of the \<open>recordChunk\<close> that created it);
  \<^item> \<open>unread\<close>: the calls of the basic component whose \<open>FileReader\<close> read has failed
    (the outcome for which \<open>processAudioChunk_settle_basic\<close> has no effects). The
    \<open>onloadend\<close> handler throws on the missing result, \<open>resolve\<close> is never called, and
    the promise has no reject path: such a call never settles.
\<close>

record app =
  cstate :: component
  settings :: captured
  clicks :: "captured list"
  startTimers :: "captured list"
  chunkTimers :: "captured list"
  intervalClosure :: captured
  closureOf :: "(string \<times> captured) list"
  unread :: "string list"

definition mount :: "variant \<Rightarrow> string \<Rightarrow> app" where
  "mount v language =
     \<lparr>cstate = init, settings = initialRender v language, clicks = [], startTimers = [],
      chunkTimers = [], intervalClosure = initialRender v language, closureOf = [],
      unread = []\<rparr>"

text \<open>What a closure created now captures: the settings, and the counter as it stands.\<close>

definition render :: "app \<Rightarrow> captured" where
  "render a = (settings a)\<lparr>activeProcessingCount_seen := activeProcessingCount (cstate a)\<rparr>"

text \<open>A handler of the component runs with the captured values \<open>c\<close>
  (\<open>runHandler\<close>); when it is one that calls \<open>recordChunk\<close>, the recorder that it creates
  keeps them (\<open>inClosure\<close>).\<close>

definition runHandler :: "variant \<Rightarrow> captured \<Rightarrow> int \<Rightarrow> event \<Rightarrow> app \<Rightarrow> app" where
  "runHandler v c now ev a = a\<lparr>cstate := handle v c now ev (cstate a)\<rparr>"

definition register :: "captured \<Rightarrow> app \<Rightarrow> app" where
  "register c a =
     a\<lparr>closureOf := closureOf a @
         map (\<lambda>chunkId. (chunkId, c))
           (filter (\<lambda>chunkId. map_of (closureOf a) chunkId = None) (recorders (cstate a)))\<rparr>"

definition inClosure :: "variant \<Rightarrow> captured \<Rightarrow> int \<Rightarrow> event \<Rightarrow> app \<Rightarrow> app" where
  "inClosure v c now ev a = register c (runHandler v c now ev a)"

text \<open>
  What can happen to the mounted component:
  \<^item> \<open>ClickStart\<close>, \<open>ClickStop\<close>: a click on the microphone button, whose handler is
    \<open>isListening ? stopListening : startListening\<close>;
  \<^item> \<open>MicrophoneGranted\<close>, \<open>MicrophoneDenied\<close>: \<open>getUserMedia\<close> resolves or rejects for the
    oldest waiting click; the basic \<open>startListening\<close> then calls \<open>startContinuousRecording\<close>
    itself, the enhanced one arms the timer for it;
  \<^item> \<open>StartTimer\<close>, \<open>FirstChunkTimer\<close>, \<open>IntervalTick\<close>, \<open>FlushTimerFires\<close>: a timer of the
    component fires;
  \<^item> \<open>RecorderStops\<close>: the \<open>stop\<close> event of a recorder, with the sizes of its data;
  \<^item> \<open>CallSettles\<close>: the awaited operations of a call end;
  \<^item> \<open>ClickClear\<close>: the enhanced component's button for \<open>clearResponses\<close>;
  \<^item> \<open>MonitorFrame\<close>: an animation frame of \<open>monitorAudioLevel\<close>, which returns unless
    \<open>continuousRecordingRef.current\<close> is set;
  \<^item> \<open>SetMaxConcurrentProcessing\<close>: the slider of the basic component, from 1 to 5 (the
    enhanced component has no control that calls the setter);
  \<^item> \<open>SetResponseUpdateDelay\<close>, \<open>SetMinAudioLevel\<close>: the sliders of the enhanced component,
    from 500 to 3000 and from 0.01 to 0.1;
  \<^item> \<open>SetAutoScreenshot\<close>, \<open>SetScreenCapturing\<close>, \<open>LanguageChanged\<close>: the checkbox, the
    outcome of \<open>toggleScreenCapture\<close>, a new value of the prop.
  The component stays mounted.
\<close>

datatype appEvent =
    ClickStart
  | MicrophoneGranted
  | MicrophoneDenied
  | StartTimer
  | FirstChunkTimer
  | IntervalTick
  | RecorderStops string "int list"
  | CallSettles string outcome
  | FlushTimerFires
  | ClickStop
  | ClickClear
  | MonitorFrame real
  | SetMaxConcurrentProcessing int
  | SetResponseUpdateDelay int
  | SetMinAudioLevel real
  | SetAutoScreenshot bool
  | SetScreenCapturing bool
  | LanguageChanged string

fun dispatch :: "variant \<Rightarrow> int \<Rightarrow> appEvent \<Rightarrow> app \<Rightarrow> app" where
  "dispatch v now ClickStart a =
     (if isListening (cstate a) then a else a\<lparr>clicks := clicks a @ [render a]\<rparr>)"
| "dispatch v now MicrophoneGranted a =
     (case clicks a of
        [] \<Rightarrow> a
      | c # cs \<Rightarrow>
          (case v of
             Enhanced \<Rightarrow>
               (inClosure v c now StartListening (a\<lparr>clicks := cs\<rparr>))
                 \<lparr>startTimers := startTimers a @ [c]\<rparr>
           | Basic \<Rightarrow>
               (inClosure v c now StartListening (a\<lparr>clicks := cs\<rparr>))
                 \<lparr>intervalClosure :=
                    (if continuousRecording (cstate a) then intervalClosure a else c)\<rparr>))"
| "dispatch v now MicrophoneDenied a = a\<lparr>clicks := tl (clicks a)\<rparr>"
| "dispatch v now StartTimer a =
     (case v of
        Basic \<Rightarrow> a
      | Enhanced \<Rightarrow>
          (case startTimers a of
             [] \<Rightarrow> a
           | c # cs \<Rightarrow>
               if stream (cstate a) \<and> \<not> continuousRecording (cstate a)
               then (runHandler v c now StartContinuousRecording (a\<lparr>startTimers := cs\<rparr>))
                      \<lparr>intervalClosure := c, chunkTimers := chunkTimers a @ [c]\<rparr>
               else a\<lparr>startTimers := cs\<rparr>))"
| "dispatch v now FirstChunkTimer a =
     (case chunkTimers a of
        [] \<Rightarrow> a
      | c # cs \<Rightarrow> inClosure v c now RecordChunk (a\<lparr>chunkTimers := cs\<rparr>))"
| "dispatch v now IntervalTick a =
     (if recordingInterval (cstate a) then inClosure v (intervalClosure a) now RecordChunk a
      else a)"
| "dispatch v now (RecorderStops chunkId sizes) a =
     (case map_of (closureOf a) chunkId of
        None \<Rightarrow> a
      | Some c \<Rightarrow> runHandler v c now (OnStop chunkId sizes) a)"
| "dispatch v now (CallSettles chunkId out) a =
     (case map_of (closureOf a) chunkId of
        None \<Rightarrow> a
      | Some c \<Rightarrow>
          if chunkId \<in> set (unread a) then a
          else if v = Basic \<and> processAudioChunk_settle_basic c chunkId now out = None
          then (if chunkId \<in> set (inFlight (cstate a))
                then a\<lparr>unread := unread a @ [chunkId]\<rparr> else a)
          else runHandler v c now (Settle chunkId out) a)"
| "dispatch v now FlushTimerFires a = runHandler v (render a) now FlushTimer a"
| "dispatch v now ClickStop a =
     (if isListening (cstate a)
      then (runHandler v (render a) now StopListening a)
             \<lparr>settings := (settings a)\<lparr>audioLevel := 0\<rparr>\<rparr>
      else a)"
| "dispatch v now ClickClear a =
     (case v of Enhanced \<Rightarrow> runHandler v (render a) now ClearResponses a | Basic \<Rightarrow> a)"
| "dispatch v now (MonitorFrame level) a =
     (if continuousRecording (cstate a)
      then a\<lparr>settings := (settings a)\<lparr>audioLevel := level\<rparr>\<rparr> else a)"
| "dispatch v now (SetMaxConcurrentProcessing n) a =
     (if v = Basic \<and> 1 \<le> n \<and> n \<le> 5
      then a\<lparr>settings := (settings a)\<lparr>maxConcurrentProcessing := n\<rparr>\<rparr> else a)"
| "dispatch v now (SetResponseUpdateDelay n) a =
     (if v = Enhanced \<and> 500 \<le> n \<and> n \<le> 3000
      then a\<lparr>settings := (settings a)\<lparr>responseUpdateDelay := n\<rparr>\<rparr> else a)"
| "dispatch v now (SetMinAudioLevel x) a =
     (if v = Enhanced \<and> 1 / 100 \<le> x \<and> x \<le> 1 / 10
      then a\<lparr>settings := (settings a)\<lparr>minAudioLevel := x\<rparr>\<rparr> else a)"
| "dispatch v now (SetAutoScreenshot b) a =
     a\<lparr>settings := (settings a)\<lparr>autoScreenshot := b\<rparr>\<rparr>"
| "dispatch v now (SetScreenCapturing b) a =
     a\<lparr>settings := (settings a)\<lparr>isScreenCapturing := b\<rparr>\<rparr>"
| "dispatch v now (LanguageChanged l) a =
     a\<lparr>settings := (settings a)\<lparr>currentLanguage := l\<rparr>\<rparr>"

text \<open>One event of the mounted component, and a sequence of them. As in \<open>step\<close>, an event
  dated before the clock is left out.\<close>

definition stepApp :: "variant \<Rightarrow> int \<times> appEvent \<Rightarrow> app \<Rightarrow> app" where
  "stepApp v ev a =
     (if fst ev < clock (cstate a) then a
      else dispatch v (fst ev) (snd ev) (a\<lparr>cstate := (cstate a)\<lparr>clock := fst ev\<rparr>\<rparr>))"

fun runApp :: "variant \<Rightarrow> app \<Rightarrow> (int \<times> appEvent) list \<Rightarrow> app" where
  "runApp v a [] = a"
| "runApp v a (ev # evs) = runApp v (stepApp v ev a) evs"

text \<open>
  \<open>quiet\<close>: a captured audio level of 0 under a positive threshold. \<open>closures\<close>: all the
  closures that are waiting or in use.
\<close>

definition quiet :: "captured \<Rightarrow> bool" where
  "quiet c \<longleftrightarrow> audioLevel c = 0 \<and> 0 < minAudioLevel c"

definition closures :: "app \<Rightarrow> captured list" where
  "closures a =
     clicks a @ startTimers a @ chunkTimers a @ [intervalClosure a] @ map snd (closureOf a)"

text \<open>
  What every state of the mounted enhanced component satisfies (\<open>idle\<close>): nothing has
  been recorded, admitted or shown, a stream is held only while listening, recording goes
  on only with a stream, the audio level is 0 unless the component is listening, and all
  closures are quiet.
\<close>

definition idle :: "app \<Rightarrow> bool" where
  "idle a \<longleftrightarrow>
     recorders (cstate a) = [] \<and> inFlight (cstate a) = [] \<and> processingQueue (cstate a) = []
     \<and> responses (cstate a) = [] \<and> pendingResponses (cstate a) = []
     \<and> flushTimers (cstate a) = [] \<and> flushTimes (cstate a) = [] \<and> closureOf a = []
     \<and> (stream (cstate a) \<longrightarrow> isListening (cstate a))
     \<and> (continuousRecording (cstate a) \<longrightarrow> stream (cstate a))
     \<and> (\<not> isListening (cstate a) \<longrightarrow> audioLevel (settings a) = 0)
     \<and> 0 < minAudioLevel (settings a)
     \<and> (\<forall>c \<in> set (closures a). quiet c)"



section \<open>Sample inputs\<close>

definition sampleResponseText :: string where
  "sampleResponseText =
     ''TRANSCRIPTION: Tell me about yourself'' @ [CHR 0x0A] @
     ''ANSWER: Focus on relevant experience.''"

definition sampleQuestion :: string where
  "sampleQuestion = ''TRANSCRIPTION: What is a closure in JavaScript?''"

definition sampleResponse :: "int \<Rightarrow> GeminiResponse" where
  "sampleResponse k =
     \<lparr>transcription = ''What is a closure?'', answer = ''A function with its scope.'',
      confidence = 7 / 10, timestamp = 1000000 + k, id' = generateChunkId 1000000 k,
      isProcessing = Some False, isStale = None\<rparr>"

definition twelveResponses :: "GeminiResponse list" where
  "twelveResponses = map sampleResponse [1, 2, 3, 4, 5, 6, 7, 8, 9, 10, 11, 12]"

definition sixteenResponses :: "GeminiResponse list" where
  "sixteenResponses =
     map sampleResponse [1, 2, 3, 4, 5, 6, 7, 8, 9, 10, 11, 12, 13, 14, 15, 16]"

text \<open>
  A session of the basic component with its initial settings (chunk duration 2000 ms: a
  recording starts every 1400 ms and stops after 2000 ms), as a sequence of handler runs
  under the closure of its start, and the same session of the mounted component. The
  requests are slow: after \<open>basicThreeAdmitted\<close> three calls are in flight.
\<close>

definition basicStop :: "(int \<times> event) list" where
  "basicStop =
     [(1000300, StartListening),
      (1001700, RecordChunk),
      (1002300, OnStop ''chunk_1000300_1'' [32000]),
      (1003100, RecordChunk),
      (1003500, StopListening)]"

definition basicSessionStart :: "(int \<times> appEvent) list" where
  "basicSessionStart =
     [(1000000, ClickStart),
      (1000300, MicrophoneGranted),
      (1001700, IntervalTick)]"

definition basicFirstAdmitted :: "(int \<times> appEvent) list" where
  "basicFirstAdmitted =
     basicSessionStart @ [(1002300, RecorderStops ''chunk_1000300_1'' [32000])]"

definition basicThreeAdmitted :: "(int \<times> appEvent) list" where
  "basicThreeAdmitted =
     basicFirstAdmitted @
     [(1003100, IntervalTick),
      (1003700, RecorderStops ''chunk_1001700_2'' [32000]),
      (1004500, IntervalTick),
      (1005100, RecorderStops ''chunk_1003100_3'' [32000])]"

text \<open>The slider is moved to 1 at 1005300; two calls settle, and the fourth recorder
  stops at 1006500.\<close>

definition limitLowered :: "(int \<times> appEvent) list" where
  "limitLowered = basicThreeAdmitted @ [(1005300, SetMaxConcurrentProcessing 1)]"

definition admittedAboveLimit :: "(int \<times> appEvent) list" where
  "admittedAboveLimit =
     limitLowered @
     [(1005500, CallSettles ''chunk_1000300_1'' (Content sampleResponseText)),
      (1005700, CallSettles ''chunk_1001700_2'' FetchFailed),
      (1005900, IntervalTick),
      (1006500, RecorderStops ''chunk_1004500_4'' [32000])]"

text \<open>Or, with the limit at 1 and the three calls still in flight, listening is stopped
  and started again.\<close>

definition restarted :: "(int \<times> appEvent) list" where
  "restarted =
     limitLowered @
     [(1005400, ClickStop),
      (1005600, ClickStart),
      (1005900, MicrophoneGranted)]"

text \<open>The read of the first blob fails at 1002400.\<close>

definition failedRead :: "(int \<times> appEvent) list" where
  "failedRead = basicFirstAdmitted @ [(1002400, CallSettles ''chunk_1000300_1'' ReadFailed)]"




section \<open>Properties of the response parser\<close>

lemma includes_str_iff: "includes_str s t \<longleftrightarrow> (\<exists>a b. s = a @ t @ b)"
proof
  assume "includes_str s t"
  then show "\<exists>a b. s = a @ t @ b"
  proof (induction s)
    case Nil
    then show ?case by simp
  next
    case (Cons c cs)
    show ?case
    proof (cases "prefix t (c # cs)")
      case True
      then obtain z where "c # cs = [] @ t @ z" by (auto simp: prefix_def)
      then show ?thesis by blast
    next
      case False
      with Cons.prems have "includes_str cs t" by simp
      from Cons.IH[OF this] obtain a b where "cs = a @ t @ b" by blast
      then have "c # cs = (c # a) @ t @ b" by simp
      then show ?thesis by blast
    qed
  qed
next
  assume "\<exists>a b. s = a @ t @ b"
  then obtain a b where s: "s = a @ t @ b" by blast
  have "includes_str (a @ t @ b) t"
  proof (induction a)
    case Nil
    have "prefix t (t @ b)" by simp
    then show ?case by (cases "t @ b") auto
  next
    case (Cons c a)
    then show ?case by simp
  qed
  with s show "includes_str s t" by simp
qed

lemma afterFirst_Some: "afterFirst marker s = Some r \<Longrightarrow> \<exists>a. s = a @ marker @ r"
proof (induction s)
  case Nil
  then show ?case by (simp split: if_splits)
next
  case (Cons c cs)
  show ?case
  proof (cases "prefix marker (c # cs)")
    case True
    with Cons.prems have "r = drop (length marker) (c # cs)" by simp
    moreover from True obtain z where "c # cs = marker @ z" by (auto simp: prefix_def)
    ultimately have "c # cs = [] @ marker @ r" by simp
    then show ?thesis by blast
  next
    case False
    with Cons.prems have "afterFirst marker cs = Some r" by simp
    from Cons.IH[OF this] obtain a where "cs = a @ marker @ r" by blast
    then have "c # cs = (c # a) @ marker @ r" by simp
    then show ?thesis by blast
  qed
qed

lemma afterFirst_occurs: "afterFirst marker (a @ marker @ b) \<noteq> None"
proof (induction a)
  case Nil
  have "prefix marker (marker @ b)" by simp
  then show ?case by (cases "marker @ b") auto
next
  case (Cons c a)
  then show ?case by simp
qed

lemma afterFirst_None: "afterFirst marker s = None \<Longrightarrow> \<nexists>a b. s = a @ marker @ b"
  using afterFirst_occurs by blast

lemma trim_eq_Nil: "trim s = [] \<longleftrightarrow> (\<forall>c \<in> set s. isWhiteSpace c)"
proof
  assume "trim s = []"
  then have "\<forall>c \<in> set (rev (dropWhile isWhiteSpace s)). isWhiteSpace c"
    by (simp add: trim_def)
  then have all: "\<forall>c \<in> set (dropWhile isWhiteSpace s). isWhiteSpace c" by simp
  show "\<forall>c \<in> set s. isWhiteSpace c"
  proof (cases "dropWhile isWhiteSpace s")
    case Nil
    then show ?thesis by simp
  next
    case (Cons x xs)
    then have "\<not> isWhiteSpace x" using hd_dropWhile[of isWhiteSpace s] by simp
    with all Cons show ?thesis by simp
  qed
next
  assume "\<forall>c \<in> set s. isWhiteSpace c"
  then have d: "dropWhile isWhiteSpace s = []" by simp
  show "trim s = []" unfolding trim_def d by simp
qed

lemma orElse_nonempty: "b \<noteq> [] \<Longrightarrow> orElse a b \<noteq> []"
  by (simp add: orElse_def split: option.splits)

lemma orElse_None: "orElse None b = b"
  by (simp add: orElse_def)

lemma orElse_length: "0 < length (orElse a []) \<Longrightarrow> \<exists>x. a = Some x"
  by (cases a) (simp_all add: orElse_def)

lemma transcription_marker_trim:
  assumes "transcriptionMatch content = Some m"
  shows "trim content \<noteq> []"
proof -
  from assms obtain r where "afterFirst ''TRANSCRIPTION:'' content = Some r"
    by (auto simp: transcriptionMatch_def)
  from afterFirst_Some[OF this] obtain a where "content = a @ ''TRANSCRIPTION:'' @ r" by blast
  then have "CHR ''T'' \<in> set content" by simp
  moreover have "\<not> isWhiteSpace CHR ''T''" by (simp add: isWhiteSpace_def)
  ultimately show ?thesis by (auto simp: trim_eq_Nil)
qed

lemma sample_first_check:
  "sampleResponseText \<noteq> [] \<and> \<not> includes_str sampleResponseText ''UNCLEAR_AUDIO''
   \<and> \<not> length sampleResponseText < 20"
  by code_simp

lemma sample_transcription:
  "orElse (map_option trim (transcriptionMatch sampleResponseText)) [] = ''Tell me about yourself''"
  by code_simp

lemma sample_answer:
  "orElse (map_option trim (answerMatch sampleResponseText)) (trim sampleResponseText)
     = ''Focus on relevant experience.''"
  by code_simp

lemma sample_quality:
  "\<not> (length ''Tell me about yourself'' < 5
      \<or> includes_str (toLowerCase ''Tell me about yourself'') ''unclear''
      \<or> includes_str (toLowerCase ''Tell me about yourself'') ''inaudible'')"
  by code_simp

lemma confidenceOf_lower: "7 / 10 \<le> confidenceOf lang tr an"
  by (simp add: confidenceOf_def Let_def)

text \<open>
  C7: for the response text \<^verbatim>\<open>TRANSCRIPTION: Tell me about yourself\<close>, newline,
  \<^verbatim>\<open>ANSWER: Focus on relevant experience.\<close> the parser accepts, with exactly these two
  texts as transcription and answer and a confidence of at least 0.7, whatever the
  target language, the chunk id and the time.
\<close>

theorem parse_sample_response:
  "\<exists>g. parseResponse lang chunkId now sampleResponseText = Accepted g
       \<and> transcription g = ''Tell me about yourself''
       \<and> answer g = ''Focus on relevant experience.''
       \<and> confidence g \<ge> 7 / 10
       \<and> id' g = chunkId \<and> isProcessing g = Some False"
proof -
  have "7 / 10 \<le> min (confidenceOf lang ''Tell me about yourself'' ''Focus on relevant experience.'')
                     (95 / 100)"
    using confidenceOf_lower[of lang] by simp
  then show ?thesis
    using sample_first_check sample_quality
    by (simp add: parseResponse_def Let_def sample_transcription sample_answer)
qed

text \<open>
  C10: in the enhanced component the absence of an \<open>ANSWER:\<close> marker is not a reason for
  rejection (a text is rejected exactly when one of the quality checks on the text and on
  the transcription fails); an accepted record never has an empty answer, and without the
  marker its answer is the whole trimmed response text.
\<close>

theorem answer_fallback:
  "(parseResponse lang chunkId now content = Rejected \<longleftrightarrow>
      content = [] \<or> includes_str content ''UNCLEAR_AUDIO'' \<or> length content < 20
      \<or> length (orElse (map_option trim (transcriptionMatch content)) []) < 5
      \<or> includes_str (toLowerCase (orElse (map_option trim (transcriptionMatch content)) [])) ''unclear''
      \<or> includes_str (toLowerCase (orElse (map_option trim (transcriptionMatch content)) [])) ''inaudible'')
   \<and> (\<forall>g. parseResponse lang chunkId now content = Accepted g \<longrightarrow>
          answer g \<noteq> []
          \<and> ((\<nexists>a b. content = a @ ''ANSWER:'' @ b) \<longrightarrow> answer g = trim content))"
proof -
  let ?tr = "orElse (map_option trim (transcriptionMatch content)) []"
  have rej: "parseResponse lang chunkId now content = Rejected \<longleftrightarrow>
      content = [] \<or> includes_str content ''UNCLEAR_AUDIO'' \<or> length content < 20
      \<or> length ?tr < 5
      \<or> includes_str (toLowerCase ?tr) ''unclear''
      \<or> includes_str (toLowerCase ?tr) ''inaudible''"
    by (simp add: parseResponse_def Let_def)
  have acc: "answer g \<noteq> [] \<and> ((\<nexists>a b. content = a @ ''ANSWER:'' @ b) \<longrightarrow> answer g = trim content)"
    if g: "parseResponse lang chunkId now content = Accepted g" for g
  proof -
    from g have an: "answer g = orElse (map_option trim (answerMatch content)) (trim content)"
      and len: "\<not> length ?tr < 5"
      by (auto simp: parseResponse_def Let_def split: if_splits)
    from len have "0 < length ?tr" by linarith
    then obtain x where "map_option trim (transcriptionMatch content) = Some x"
      using orElse_length by blast
    then obtain m where "transcriptionMatch content = Some m" by auto
    then have ne: "trim content \<noteq> []" by (rule transcription_marker_trim)
    have "answer g \<noteq> []" using an ne by (simp add: orElse_nonempty)
    moreover have "answer g = trim content" if "\<nexists>a b. content = a @ ''ANSWER:'' @ b"
    proof -
      have "afterFirst ''ANSWER:'' content = None"
      proof (cases "afterFirst ''ANSWER:'' content")
        case None
        then show ?thesis .
      next
        case (Some r)
        from afterFirst_Some[OF this] that show ?thesis by blast
      qed
      then show ?thesis using an by (simp add: answerMatch_def orElse_None)
    qed
    ultimately show ?thesis by blast
  qed
  from rej acc show ?thesis by blast
qed

theorem answer_fallback_witness:
  "(\<nexists>a b. sampleQuestion = a @ ''ANSWER:'' @ b)
   \<and> parseResponse ''python'' ''chunk_1001500_1'' 1004800 sampleQuestion \<noteq> Rejected
   \<and> (\<exists>g. parseResponse ''python'' ''chunk_1001500_1'' 1004800 sampleQuestion = Accepted g
          \<and> answer g = sampleQuestion \<and> answer g \<noteq> [])"
proof -
  have acc: "parseResponse ''python'' ''chunk_1001500_1'' 1004800 sampleQuestion = Accepted
     \<lparr>transcription = ''What is a closure in JavaScript?'', answer = sampleQuestion,
      confidence = 95 / 100, timestamp = 1004800, id' = ''chunk_1001500_1'',
      isProcessing = Some False, isStale = None\<rparr>"
    by code_simp
  have "afterFirst ''ANSWER:'' sampleQuestion = None" by code_simp
  then have nomark: "\<nexists>a b. sampleQuestion = a @ ''ANSWER:'' @ b" by (rule afterFirst_None)
  have t: "trim sampleQuestion = sampleQuestion" by code_simp
  from acc nomark t answer_fallback[of "''python''" "''chunk_1001500_1''" 1004800 sampleQuestion]
  show ?thesis by auto
qed

section \<open>Effects and the fields they touch\<close>

lemma updateResponsesWithDelay_other:
  "activeProcessingCount (updateResponsesWithDelay cap now r s) = activeProcessingCount s"
  "processingQueue (updateResponsesWithDelay cap now r s) = processingQueue s"
  "inFlight (updateResponsesWithDelay cap now r s) = inFlight s"
  "settled (updateResponsesWithDelay cap now r s) = settled s"
  "stopWaits (updateResponsesWithDelay cap now r s) = stopWaits s"
  "completedLogs (updateResponsesWithDelay cap now r s) = completedLogs s"
  "recorders (updateResponsesWithDelay cap now r s) = recorders s"
  "continuousRecording (updateResponsesWithDelay cap now r s) = continuousRecording s"
  "stream (updateResponsesWithDelay cap now r s) = stream s"
  "audioContext (updateResponsesWithDelay cap now r s) = audioContext s"
  "chunkCounter (updateResponsesWithDelay cap now r s) = chunkCounter s"
  "clock (updateResponsesWithDelay cap now r s) = clock s"
  by (simp_all add: updateResponsesWithDelay_def Let_def)

lemma perform_active:
  "activeProcessingCount (perform cap now e s) =
     (case e of IncrementActive \<Rightarrow> activeProcessingCount s + 1
      | DecrementActive \<Rightarrow> max 0 (activeProcessingCount s - 1)
      | _ \<Rightarrow> activeProcessingCount s)"
  by (cases e) (simp_all add: updateResponsesWithDelay_def Let_def)

lemma perform_queue:
  "processingQueue (perform cap now e s) =
     (case e of DeleteFromQueue c \<Rightarrow> AList.delete c (processingQueue s)
      | _ \<Rightarrow> processingQueue s)"
  by (cases e) (simp_all add: updateResponsesWithDelay_def Let_def)

lemma perform_inFlight: "inFlight (perform cap now e s) = inFlight s"
  by (cases e) (simp_all add: updateResponsesWithDelay_def Let_def)

lemma performAll_inFlight: "inFlight (performAll cap now es s) = inFlight s"
  by (induction es arbitrary: s) (simp_all add: perform_inFlight)

lemma performAll_append:
  "performAll cap now (es @ fs) s = performAll cap now fs (performAll cap now es s)"
  by (induction es arbitrary: s) simp_all

lemma perform_active_nonneg:
  "0 \<le> activeProcessingCount s \<Longrightarrow> 0 \<le> activeProcessingCount (perform cap now e s)"
  by (cases e) (simp_all add: updateResponsesWithDelay_other)

lemma performAll_active_nonneg:
  "0 \<le> activeProcessingCount s \<Longrightarrow> 0 \<le> activeProcessingCount (performAll cap now es s)"
  by (induction es arbitrary: s) (simp_all add: perform_active_nonneg)

lemma perform_queue_length:
  "length (processingQueue (perform cap now e s)) \<le> length (processingQueue s)"
  by (cases e) (simp_all add: updateResponsesWithDelay_other length_delete_le)

lemma performAll_queue_length:
  "length (processingQueue (performAll cap now es s)) \<le> length (processingQueue s)"
proof (induction es arbitrary: s)
  case Nil
  show ?case by simp
next
  case (Cons e es)
  have "length (processingQueue (performAll cap now es (perform cap now e s)))
          \<le> length (processingQueue (perform cap now e s))"
    by (rule Cons.IH)
  also have "\<dots> \<le> length (processingQueue s)" by (rule perform_queue_length)
  finally show ?case by simp
qed

lemma resolvePromise_other:
  "activeProcessingCount (resolvePromise c s) = activeProcessingCount s"
  "processingQueue (resolvePromise c s) = processingQueue s"
  "responses (resolvePromise c s) = responses s"
  "pendingResponses (resolvePromise c s) = pendingResponses s"
  "currentTranscription (resolvePromise c s) = currentTranscription s"
  "flushTimes (resolvePromise c s) = flushTimes s"
  "stream (resolvePromise c s) = stream s"
  by (simp_all add: resolvePromise_def Let_def)

lemma delayedUpdate_other:
  "activeProcessingCount (delayedUpdate now s) = activeProcessingCount s"
  "processingQueue (delayedUpdate now s) = processingQueue s"
  "inFlight (delayedUpdate now s) = inFlight s"
  "settled (delayedUpdate now s) = settled s"
  "stopWaits (delayedUpdate now s) = stopWaits s"
  "completedLogs (delayedUpdate now s) = completedLogs s"
  "recorders (delayedUpdate now s) = recorders s"
  "continuousRecording (delayedUpdate now s) = continuousRecording s"
  "stream (delayedUpdate now s) = stream s"
  by (simp_all add: delayedUpdate_def)

lemma fireFlushTimer_other:
  "activeProcessingCount (fireFlushTimer now s) = activeProcessingCount s"
  "processingQueue (fireFlushTimer now s) = processingQueue s"
  "inFlight (fireFlushTimer now s) = inFlight s"
  "settled (fireFlushTimer now s) = settled s"
  "stopWaits (fireFlushTimer now s) = stopWaits s"
  "completedLogs (fireFlushTimer now s) = completedLogs s"
  "recorders (fireFlushTimer now s) = recorders s"
  "continuousRecording (fireFlushTimer now s) = continuousRecording s"
  "stream (fireFlushTimer now s) = stream s"
  by (simp_all add: fireFlushTimer_def delayedUpdate_other split: option.splits)

lemma awaitQueue_other:
  "activeProcessingCount (awaitQueue s) = activeProcessingCount s"
  "processingQueue (awaitQueue s) = processingQueue s"
  "inFlight (awaitQueue s) = inFlight s"
  "settled (awaitQueue s) = settled s"
  "recorders (awaitQueue s) = recorders s"
  "continuousRecording (awaitQueue s) = continuousRecording s"
  "stream (awaitQueue s) = stream s"
  "audioContext (awaitQueue s) = audioContext s"
  "recordingInterval (awaitQueue s) = recordingInterval s"
  by (simp_all add: awaitQueue_def Let_def)

lemma perform_keys:
  "fst ` set (processingQueue (perform cap now e s)) \<subseteq> fst ` set (processingQueue s)"
  by (cases e) (simp_all add: updateResponsesWithDelay_other dom_delete_subset)

lemma resolvePromise_fields:
  "inFlight (resolvePromise c s) = remove1 c (inFlight s)"
  "settled (resolvePromise c s) = settled s @ [c]"
  "stopWaits (resolvePromise c s) =
     filter (\<lambda>(given, remaining). remaining \<noteq> [])
       (map (\<lambda>(given, remaining). (given, removeAll c remaining)) (stopWaits s))"
  "completedLogs (resolvePromise c s) =
     completedLogs s @ map fst (filter (\<lambda>(given, remaining). remaining = [])
       (map (\<lambda>(given, remaining). (given, removeAll c remaining)) (stopWaits s)))"
  by (simp_all add: resolvePromise_def Let_def)

section \<open>The active-processing counter\<close>

lemma handle_active_nonneg:
  assumes "0 \<le> activeProcessingCount s"
  shows "0 \<le> activeProcessingCount (handle v cap now ev s)"
proof (cases ev)
  case StartListening
  with assms show ?thesis
    by (cases v) (simp_all add: startListening_def startListening_basic_def
        startContinuousRecording_basic_def recordChunk_basic_def Let_def)
next
  case StartContinuousRecording
  with assms show ?thesis
    by (cases v) (simp_all add: startContinuousRecording_def
        startContinuousRecording_basic_def recordChunk_basic_def Let_def)
next
  case RecordChunk
  with assms show ?thesis
    by (cases v) (simp_all add: recordChunk_def recordChunk_basic_def Let_def)
next
  case (OnStop c sizes)
  let ?s = "s\<lparr>recorders := remove1 c (recorders s)\<rparr>"
  have a: "0 \<le> activeProcessingCount ?s" using assms by simp
  have e: "0 \<le> activeProcessingCount (onstop cap now c sizes ?s)"
    using performAll_active_nonneg[OF a]
    by (simp add: onstop_def callProcessAudioChunk_def Let_def assms)
  have b: "0 \<le> activeProcessingCount (onstop_basic cap now c sizes ?s)"
    using performAll_active_nonneg[OF a]
    by (simp add: onstop_basic_def callProcessAudioChunk_basic_def Let_def assms)
  from OnStop e b assms show ?thesis by (cases v) simp_all
next
  case (Settle c out)
  have e: "0 \<le> activeProcessingCount (settle cap now c out s)"
    using performAll_active_nonneg[OF assms]
    by (simp add: settle_def resolvePromise_other assms)
  have b: "0 \<le> activeProcessingCount (settle_basic cap now c out s)"
    using performAll_active_nonneg[OF assms]
    by (simp add: settle_basic_def resolvePromise_other assms split: option.splits)
  from Settle e b show ?thesis by (cases v) simp_all
next
  case FlushTimer
  with assms show ?thesis by (simp add: fireFlushTimer_other)
next
  case StopListening
  with assms show ?thesis
    by (cases v) (simp_all add: stopListening_def stopListening_basic_def
        stopContinuousRecording_def stopContinuousRecording_basic_def awaitQueue_other)
next
  case ClearResponses
  with assms show ?thesis by (cases v) (simp_all add: clearResponses_def)
qed

lemma step_active_nonneg:
  "0 \<le> activeProcessingCount s \<Longrightarrow> 0 \<le> activeProcessingCount (step v cap ev s)"
  by (simp add: step_def handle_active_nonneg)

text \<open>
  C9: the active-processing counter is never negative. From a non-negative count, no
  sequence of effects (balanced or not: the decrement is \<open>Math.max(0, prev - 1)\<close>) and
  no sequence of events of either component makes it negative.
\<close>

theorem active_count_never_negative:
  "0 \<le> activeProcessingCount s \<Longrightarrow>
   0 \<le> activeProcessingCount (performAll cap now effects s)
   \<and> 0 \<le> activeProcessingCount (run v cap s evs)"
proof -
  assume a: "0 \<le> activeProcessingCount s"
  have "0 \<le> activeProcessingCount (run v cap s evs)" using a
    by (induction evs arbitrary: s) (simp_all add: step_active_nonneg)
  with a show ?thesis by (simp add: performAll_active_nonneg)
qed

theorem active_count_never_negative_witness:
  "0 \<le> activeProcessingCount init
   \<and> 0 \<le> activeProcessingCount (performAll (initialRender Basic ''python'') 1000000
        [DecrementActive, DecrementActive, IncrementActive, DecrementActive, DecrementActive] init)
   \<and> 0 \<le> activeProcessingCount
        (run Basic (initialRender Basic ''python'') init
           (basicStop @ [(1004100, Settle ''chunk_1000300_1'' FetchFailed)]))"
proof -
  have i: "0 \<le> activeProcessingCount init" by (simp add: init_def)
  from i active_count_never_negative[OF i, of "initialRender Basic ''python''" 1000000
      "[DecrementActive, DecrementActive, IncrementActive, DecrementActive, DecrementActive]"
      Basic "basicStop @ [(1004100, Settle ''chunk_1000300_1'' FetchFailed)]"]
  show ?thesis by blast
qed

section \<open>The processing queue\<close>

lemma perform_queue_distinct:
  "distinct (map fst (processingQueue s)) \<Longrightarrow>
   distinct (map fst (processingQueue (perform cap now e s)))"
  by (cases e) (simp_all add: updateResponsesWithDelay_other distinct_delete)

lemma performAll_queue_distinct:
  "distinct (map fst (processingQueue s)) \<Longrightarrow>
   distinct (map fst (processingQueue (performAll cap now es s)))"
  by (induction es arbitrary: s) (simp_all add: perform_queue_distinct)

lemma length_update_le: "length (AList.update k v al) \<le> Suc (length al)"
  by (induction al) auto

text \<open>Only an admitting \<open>onstop\<close> lengthens the queue, by one entry, and only from below
  the limit.\<close>

lemma onstop_queue:
  "length (processingQueue (onstop cap now c sizes s)) \<le> length (processingQueue s)
   \<or> (int (length (processingQueue s)) < maxConcurrentProcessing cap
      \<and> length (processingQueue (onstop cap now c sizes s)) \<le> Suc (length (processingQueue s)))"
proof (cases "length (filter (\<lambda>sz. sz > 0) sizes) > 0
              \<and> shouldProcess cap (sum_list (filter (\<lambda>sz. sz > 0) sizes)) s")
  case False
  then show ?thesis by (auto simp: onstop_def Let_def)
next
  case True
  let ?s' = "callProcessAudioChunk cap now (sum_list (filter (\<lambda>sz. sz > 0) sizes)) c s"
  have q: "length (processingQueue ?s') \<le> length (processingQueue s)"
    using performAll_queue_length[of cap now "processAudioChunk_sync c now" s]
    by (simp add: callProcessAudioChunk_def)
  from True have lt: "int (length (processingQueue s)) < maxConcurrentProcessing cap"
    by (simp add: shouldProcess_def)
  have "length (processingQueue (onstop cap now c sizes s))
          \<le> Suc (length (processingQueue ?s'))"
    using True by (simp add: onstop_def Let_def length_update_le)
  with q lt show ?thesis by simp
qed

lemma onstop_basic_queue:
  "length (processingQueue (onstop_basic cap now c sizes s)) \<le> length (processingQueue s)
   \<or> (int (length (processingQueue s)) < maxConcurrentProcessing cap
      \<and> length (processingQueue (onstop_basic cap now c sizes s)) \<le> Suc (length (processingQueue s)))"
proof (cases "length (filter (\<lambda>sz. sz > 0) sizes) > 0
              \<and> shouldProcess_basic cap (sum_list (filter (\<lambda>sz. sz > 0) sizes)) s")
  case False
  then show ?thesis by (auto simp: onstop_basic_def Let_def)
next
  case True
  let ?s' = "callProcessAudioChunk_basic cap now c s"
  have q: "length (processingQueue ?s') \<le> length (processingQueue s)"
    using performAll_queue_length[of cap now "processAudioChunk_sync_basic c now" s]
    by (simp add: callProcessAudioChunk_basic_def)
  from True have lt: "int (length (processingQueue s)) < maxConcurrentProcessing cap"
    by (simp add: shouldProcess_basic_def)
  have "length (processingQueue (onstop_basic cap now c sizes s))
          \<le> Suc (length (processingQueue ?s'))"
    using True by (simp add: onstop_basic_def Let_def length_update_le)
  with q lt show ?thesis by simp
qed

lemma settle_queue:
  "length (processingQueue (settle cap now c out s)) \<le> length (processingQueue s)"
  using performAll_queue_length[of cap now "processAudioChunk_settle cap c now out" s]
  by (simp add: settle_def resolvePromise_other)

lemma settle_basic_queue:
  "length (processingQueue (settle_basic cap now c out s)) \<le> length (processingQueue s)"
proof (cases "processAudioChunk_settle_basic cap c now out")
  case None
  then show ?thesis by (simp add: settle_basic_def)
next
  case (Some effects)
  with performAll_queue_length[of cap now effects s] show ?thesis
    by (simp add: settle_basic_def resolvePromise_other)
qed

lemma handle_queue:
  "length (processingQueue (handle v cap now ev s)) \<le> length (processingQueue s)
   \<or> (int (length (processingQueue s)) < maxConcurrentProcessing cap
      \<and> length (processingQueue (handle v cap now ev s)) \<le> Suc (length (processingQueue s)))"
proof (cases ev)
  case StartListening
  then show ?thesis
    by (cases v) (simp_all add: startListening_def startListening_basic_def
        startContinuousRecording_basic_def recordChunk_basic_def Let_def)
next
  case StartContinuousRecording
  then show ?thesis
    by (cases v) (simp_all add: startContinuousRecording_def
        startContinuousRecording_basic_def recordChunk_basic_def Let_def)
next
  case RecordChunk
  then show ?thesis
    by (cases v) (simp_all add: recordChunk_def recordChunk_basic_def Let_def)
next
  case (OnStop c sizes)
  let ?s = "s\<lparr>recorders := remove1 c (recorders s)\<rparr>"
  from onstop_queue[of cap now c sizes ?s] onstop_basic_queue[of cap now c sizes ?s] OnStop
  show ?thesis by (cases v) (simp_all add: Let_def)
next
  case (Settle c out)
  with settle_queue[of cap now c out s] settle_basic_queue[of cap now c out s]
  show ?thesis by (cases v) simp_all
next
  case FlushTimer
  then show ?thesis by (simp add: fireFlushTimer_other)
next
  case StopListening
  then show ?thesis
    by (cases v) (simp_all add: stopListening_def stopListening_basic_def
        stopContinuousRecording_def stopContinuousRecording_basic_def awaitQueue_other)
next
  case ClearResponses
  then show ?thesis by (cases v) (simp_all add: clearResponses_def)
qed

text \<open>The keys of the queue stay distinct, so its length is the number of its keys.\<close>

lemma handle_queue_distinct:
  assumes "distinct (map fst (processingQueue s))"
  shows "distinct (map fst (processingQueue (handle v cap now ev s)))"
proof (cases ev)
  case StartListening
  with assms show ?thesis
    by (cases v) (simp_all add: startListening_def startListening_basic_def
        startContinuousRecording_basic_def recordChunk_basic_def Let_def)
next
  case StartContinuousRecording
  with assms show ?thesis
    by (cases v) (simp_all add: startContinuousRecording_def
        startContinuousRecording_basic_def recordChunk_basic_def Let_def)
next
  case RecordChunk
  with assms show ?thesis
    by (cases v) (simp_all add: recordChunk_def recordChunk_basic_def Let_def)
next
  case (OnStop c sizes)
  let ?s = "s\<lparr>recorders := remove1 c (recorders s)\<rparr>"
  have d: "distinct (map fst (processingQueue ?s))" using assms by simp
  have e: "distinct (map fst (processingQueue (onstop cap now c sizes ?s)))"
    using performAll_queue_distinct[OF d, of cap now "processAudioChunk_sync c now"] assms
    by (simp add: onstop_def callProcessAudioChunk_def Let_def distinct_update)
  have b: "distinct (map fst (processingQueue (onstop_basic cap now c sizes ?s)))"
    using performAll_queue_distinct[OF d, of cap now "processAudioChunk_sync_basic c now"] assms
    by (simp add: onstop_basic_def callProcessAudioChunk_basic_def Let_def distinct_update)
  from OnStop e b assms show ?thesis by (cases v) (simp_all add: Let_def)
next
  case (Settle c out)
  have e: "distinct (map fst (processingQueue (settle cap now c out s)))"
    using performAll_queue_distinct[OF assms] assms
    by (simp add: settle_def resolvePromise_other)
  have b: "distinct (map fst (processingQueue (settle_basic cap now c out s)))"
    using performAll_queue_distinct[OF assms] assms
    by (simp add: settle_basic_def resolvePromise_other split: option.splits)
  from Settle e b show ?thesis by (cases v) simp_all
next
  case FlushTimer
  with assms show ?thesis by (simp add: fireFlushTimer_other)
next
  case StopListening
  with assms show ?thesis
    by (cases v) (simp_all add: stopListening_def stopListening_basic_def
        stopContinuousRecording_def stopContinuousRecording_basic_def awaitQueue_other)
next
  case ClearResponses
  with assms show ?thesis by (cases v) (simp_all add: clearResponses_def)
qed

text \<open>The \<open>finally\<close> block comes last, so after the settlement the key is gone.\<close>

lemma performAll_finally_releases:
  "c \<notin> fst ` set (processingQueue (performAll cap now (es @ processAudioChunk_finally c) s))"
  by (simp add: performAll_append processAudioChunk_finally_def delete_notin_dom)

lemma settle_releases:
  "c \<in> set (inFlight s) \<Longrightarrow> c \<notin> fst ` set (processingQueue (settle cap now c out s))"
  using performAll_finally_releases[of c cap now "processAudioChunk_try cap c now out" s]
  by (simp add: settle_def resolvePromise_other processAudioChunk_settle_def)

lemma settle_basic_releases:
  "c \<in> set (inFlight s) \<Longrightarrow> out \<noteq> ReadFailed \<Longrightarrow>
   c \<notin> fst ` set (processingQueue (settle_basic cap now c out s))"
  using performAll_finally_releases[of c cap now "processAudioChunk_try_basic cap c now out" s]
  by (simp add: settle_basic_def resolvePromise_other processAudioChunk_settle_basic_def)

section \<open>Events of the mounted component\<close>

lemma register_fields:
  "cstate (register c a) = cstate a
   \<and> settings (register c a) = settings a
   \<and> clicks (register c a) = clicks a
   \<and> startTimers (register c a) = startTimers a
   \<and> chunkTimers (register c a) = chunkTimers a
   \<and> intervalClosure (register c a) = intervalClosure a
   \<and> unread (register c a) = unread a"
  by (simp add: register_def)

lemma runHandler_fields:
  "cstate (runHandler v c now ev a) = handle v c now ev (cstate a)
   \<and> settings (runHandler v c now ev a) = settings a
   \<and> clicks (runHandler v c now ev a) = clicks a
   \<and> startTimers (runHandler v c now ev a) = startTimers a
   \<and> chunkTimers (runHandler v c now ev a) = chunkTimers a
   \<and> intervalClosure (runHandler v c now ev a) = intervalClosure a
   \<and> closureOf (runHandler v c now ev a) = closureOf a
   \<and> unread (runHandler v c now ev a) = unread a"
  by (simp add: runHandler_def)

lemma inClosure_fields:
  "cstate (inClosure v c now ev a) = handle v c now ev (cstate a)
   \<and> settings (inClosure v c now ev a) = settings a
   \<and> clicks (inClosure v c now ev a) = clicks a
   \<and> startTimers (inClosure v c now ev a) = startTimers a
   \<and> chunkTimers (inClosure v c now ev a) = chunkTimers a
   \<and> intervalClosure (inClosure v c now ev a) = intervalClosure a
   \<and> unread (inClosure v c now ev a) = unread a"
  by (simp add: inClosure_def register_fields runHandler_fields)

text \<open>Every event of the mounted component leaves the state of the component as it is
  or runs one handler on it, with some captured values.\<close>

lemma dispatch_cstate:
  assumes "P (cstate a)" and "\<And>c ev'. P (handle v c now ev' (cstate a))"
  shows "P (cstate (dispatch v now ev a))"
proof (cases ev)
  case MicrophoneGranted
  with assms show ?thesis
    by (cases "clicks a"; cases v) (simp_all add: inClosure_fields del: handle.simps)
next
  case StartTimer
  with assms show ?thesis
    by (cases "startTimers a"; cases v)
       (simp_all add: inClosure_fields runHandler_fields del: handle.simps)
next
  case FirstChunkTimer
  with assms show ?thesis
    by (cases "chunkTimers a") (simp_all add: inClosure_fields del: handle.simps)
next
  case (RecorderStops c sizes)
  with assms show ?thesis
    by (cases "map_of (closureOf a) c")
       (simp_all add: inClosure_fields runHandler_fields del: handle.simps)
next
  case (CallSettles c out)
  with assms show ?thesis
    by (cases "map_of (closureOf a) c")
       (simp_all add: inClosure_fields runHandler_fields del: handle.simps)
next
  case ClickClear
  with assms show ?thesis
    by (cases v) (simp_all add: inClosure_fields runHandler_fields del: handle.simps)
qed (use assms in \<open>simp_all add: inClosure_fields runHandler_fields del: handle.simps\<close>)

lemma stepApp_invariant:
  assumes h: "\<And>c now ev s. P s \<Longrightarrow> P (handle v c now ev s)"
    and t: "\<And>s t. P s \<Longrightarrow> P (s\<lparr>clock := t\<rparr>)"
    and p: "P (cstate a)"
  shows "P (cstate (stepApp v ev a))"
proof (cases "fst ev < clock (cstate a)")
  case True
  with p show ?thesis by (simp add: stepApp_def)
next
  case False
  let ?a = "a\<lparr>cstate := (cstate a)\<lparr>clock := fst ev\<rparr>\<rparr>"
  from p t have q: "P (cstate ?a)" by simp
  have "P (cstate (dispatch v (fst ev) (snd ev) ?a))"
  proof (rule dispatch_cstate)
    show "P (cstate ?a)" by (rule q)
    show "P (handle v c (fst ev) ev' (cstate ?a))" for c ev' using q by (rule h)
  qed
  with False show ?thesis by (simp add: stepApp_def)
qed

lemma runApp_invariant:
  assumes h: "\<And>c now ev s. P s \<Longrightarrow> P (handle v c now ev s)"
    and t: "\<And>s t. P s \<Longrightarrow> P (s\<lparr>clock := t\<rparr>)"
  shows "P (cstate a) \<Longrightarrow> P (cstate (runApp v a evs))"
proof (induction evs arbitrary: a)
  case Nil
  then show ?case by simp
next
  case (Cons ev evs)
  from stepApp_invariant[of P v a ev, OF h t Cons.prems]
  have "P (cstate (stepApp v ev a))" .
  then show ?case using Cons.IH by simp
qed

text \<open>Only the \<open>onstop\<close> of a recorder lengthens the queue, and only from below the
  limit that its closure captured.\<close>

lemma handle_queue_grows:
  assumes "length (processingQueue (handle v c now ev s)) > length (processingQueue s)"
  shows "(\<exists>chunkId sizes. ev = OnStop chunkId sizes)
         \<and> int (length (processingQueue s)) < maxConcurrentProcessing c"
proof (cases ev)
  case StartListening
  with assms show ?thesis
    by (cases v) (simp_all add: startListening_def startListening_basic_def
        startContinuousRecording_basic_def recordChunk_basic_def Let_def split: if_splits)
next
  case StartContinuousRecording
  with assms show ?thesis
    by (cases v) (simp_all add: startContinuousRecording_def
        startContinuousRecording_basic_def recordChunk_basic_def Let_def split: if_splits)
next
  case RecordChunk
  with assms show ?thesis
    by (cases v) (simp_all add: recordChunk_def recordChunk_basic_def Let_def split: if_splits)
next
  case (OnStop chunkId sizes)
  with handle_queue[of v c now ev s] assms show ?thesis by auto
next
  case (Settle chunkId out)
  with settle_queue[of c now chunkId out s] settle_basic_queue[of c now chunkId out s] assms
  show ?thesis by (cases v) simp_all
next
  case FlushTimer
  with assms show ?thesis by (simp add: fireFlushTimer_other)
next
  case StopListening
  with assms show ?thesis
    by (cases v) (simp_all add: stopListening_def stopListening_basic_def
        stopContinuousRecording_def stopContinuousRecording_basic_def awaitQueue_other)
next
  case ClearResponses
  with assms show ?thesis by (cases v) (simp_all add: clearResponses_def)
qed

text \<open>The closures that are kept are kept for good; the recorders' closures only grow.\<close>

lemma register_closureOf: "set (closureOf a) \<subseteq> set (closureOf (register c a))"
  by (auto simp: register_def)

lemma dispatch_closureOf: "set (closureOf a) \<subseteq> set (closureOf (dispatch v now ev a))"
proof (cases ev)
  case MicrophoneGranted
  then show ?thesis
    using register_closureOf[of "runHandler v (hd (clicks a)) now StartListening (a\<lparr>clicks := tl (clicks a)\<rparr>)" "hd (clicks a)"]
    by (cases "clicks a"; cases v) (simp_all add: inClosure_def runHandler_fields)
next
  case StartTimer
  then show ?thesis
    by (cases "startTimers a"; cases v) (simp_all add: runHandler_fields)
next
  case FirstChunkTimer
  then show ?thesis
    using register_closureOf[of "runHandler v (hd (chunkTimers a)) now RecordChunk (a\<lparr>chunkTimers := tl (chunkTimers a)\<rparr>)" "hd (chunkTimers a)"]
    by (cases "chunkTimers a") (simp_all add: inClosure_def runHandler_fields)
next
  case IntervalTick
  then show ?thesis
    using register_closureOf[of "runHandler v (intervalClosure a) now RecordChunk a" "intervalClosure a"]
    by (simp add: inClosure_def runHandler_fields)
next
  case (RecorderStops c sizes)
  then show ?thesis
    by (cases "map_of (closureOf a) c") (simp_all add: runHandler_fields)
next
  case (CallSettles c out)
  then show ?thesis
    by (cases "map_of (closureOf a) c") (simp_all add: runHandler_fields)
next
  case ClickClear
  then show ?thesis by (cases v) (simp_all add: runHandler_fields)
qed (simp_all add: runHandler_fields)

lemma dispatch_queue_grows:
  assumes "length (processingQueue (cstate (dispatch v now ev a))) > length (processingQueue (cstate a))"
  shows "\<exists>chunkId sizes c. ev = RecorderStops chunkId sizes
           \<and> map_of (closureOf a) chunkId = Some c
           \<and> int (length (processingQueue (cstate a))) < maxConcurrentProcessing c"
proof (cases ev)
  case MicrophoneGranted
  with assms handle_queue_grows[of "cstate a" v "hd (clicks a)" now StartListening]
  show ?thesis
    by (cases "clicks a"; cases v) (simp_all add: inClosure_fields del: handle.simps)
next
  case StartTimer
  with assms handle_queue_grows[of "cstate a" v "hd (startTimers a)" now StartContinuousRecording]
  show ?thesis
    by (cases "startTimers a"; cases v)
       (simp_all add: runHandler_fields del: handle.simps split: if_splits)
next
  case FirstChunkTimer
  with assms handle_queue_grows[of "cstate a" v "hd (chunkTimers a)" now RecordChunk]
  show ?thesis
    by (cases "chunkTimers a") (simp_all add: inClosure_fields del: handle.simps)
next
  case IntervalTick
  with assms handle_queue_grows[of "cstate a" v "intervalClosure a" now RecordChunk]
  show ?thesis
    by (simp add: inClosure_fields del: handle.simps split: if_splits)
next
  case (RecorderStops chunkId sizes)
  show ?thesis
  proof (cases "map_of (closureOf a) chunkId")
    case None
    with assms RecorderStops show ?thesis by simp
  next
    case (Some c)
    with assms RecorderStops handle_queue_grows[of "cstate a" v c now "OnStop chunkId sizes"]
    show ?thesis by (simp add: runHandler_fields del: handle.simps)
  qed
next
  case (CallSettles chunkId out)
  show ?thesis
  proof (cases "map_of (closureOf a) chunkId")
    case None
    with assms CallSettles show ?thesis by simp
  next
    case (Some c)
    with assms CallSettles handle_queue_grows[of "cstate a" v c now "Settle chunkId out"]
    show ?thesis by (simp add: runHandler_fields del: handle.simps split: if_splits)
  qed
next
  case FlushTimerFires
  with assms handle_queue_grows[of "cstate a" v "render a" now FlushTimer]
  show ?thesis by (simp add: runHandler_fields del: handle.simps)
next
  case ClickStop
  with assms handle_queue_grows[of "cstate a" v "render a" now StopListening]
  show ?thesis by (simp add: runHandler_fields del: handle.simps split: if_splits)
next
  case ClickClear
  with assms handle_queue_grows[of "cstate a" v "render a" now ClearResponses]
  show ?thesis by (cases v) (simp_all add: runHandler_fields del: handle.simps)
qed (use assms in \<open>simp_all split: if_splits\<close>)

lemma dispatch_queue_step:
  "length (processingQueue (cstate (dispatch v now ev a))) \<le> Suc (length (processingQueue (cstate a)))"
proof (rule dispatch_cstate)
  show "length (processingQueue (cstate a)) \<le> Suc (length (processingQueue (cstate a)))" by simp
  show "length (processingQueue (handle v c now ev' (cstate a))) \<le> Suc (length (processingQueue (cstate a)))"
    for c ev'
    using handle_queue[of v c now ev' "cstate a"] by linarith
qed

text \<open>The queue is empty or no longer than the limit that the closure of some recorder
  captured.\<close>

lemma dispatch_queue_within:
  assumes "processingQueue (cstate a) = []
           \<or> (\<exists>c \<in> snd ` set (closureOf a).
                 int (length (processingQueue (cstate a))) \<le> maxConcurrentProcessing c)"
  shows "processingQueue (cstate (dispatch v now ev a)) = []
           \<or> (\<exists>c \<in> snd ` set (closureOf (dispatch v now ev a)).
                 int (length (processingQueue (cstate (dispatch v now ev a))))
                   \<le> maxConcurrentProcessing c)"
proof (cases "length (processingQueue (cstate (dispatch v now ev a)))
                > length (processingQueue (cstate a))")
  case True
  from dispatch_queue_grows[OF True] obtain chunkId c where
    c: "map_of (closureOf a) chunkId = Some c"
    and lt: "int (length (processingQueue (cstate a))) < maxConcurrentProcessing c"
    by blast
  from c have "(chunkId, c) \<in> set (closureOf a)" by (rule map_of_SomeD)
  with dispatch_closureOf[of a v now ev]
  have "c \<in> snd ` set (closureOf (dispatch v now ev a))" by force
  moreover from lt dispatch_queue_step[of v now ev a]
  have "int (length (processingQueue (cstate (dispatch v now ev a)))) \<le> maxConcurrentProcessing c"
    by linarith
  ultimately show ?thesis by blast
next
  case False
  then have le: "length (processingQueue (cstate (dispatch v now ev a)))
                   \<le> length (processingQueue (cstate a))" by simp
  from assms show ?thesis
  proof
    assume "processingQueue (cstate a) = []"
    with le show ?thesis by simp
  next
    assume "\<exists>c \<in> snd ` set (closureOf a).
              int (length (processingQueue (cstate a))) \<le> maxConcurrentProcessing c"
    then obtain c where c: "c \<in> snd ` set (closureOf a)"
      and n: "int (length (processingQueue (cstate a))) \<le> maxConcurrentProcessing c" by blast
    from c dispatch_closureOf[of a v now ev]
    have "c \<in> snd ` set (closureOf (dispatch v now ev a))" by blast
    moreover from n le
    have "int (length (processingQueue (cstate (dispatch v now ev a)))) \<le> maxConcurrentProcessing c"
      by linarith
    ultimately show ?thesis by blast
  qed
qed

lemma stepApp_queue_within:
  assumes "processingQueue (cstate a) = []
           \<or> (\<exists>c \<in> snd ` set (closureOf a).
                 int (length (processingQueue (cstate a))) \<le> maxConcurrentProcessing c)"
  shows "processingQueue (cstate (stepApp v ev a)) = []
           \<or> (\<exists>c \<in> snd ` set (closureOf (stepApp v ev a)).
                 int (length (processingQueue (cstate (stepApp v ev a))))
                   \<le> maxConcurrentProcessing c)"
proof (cases "fst ev < clock (cstate a)")
  case True
  with assms show ?thesis by (simp add: stepApp_def)
next
  case False
  let ?a = "a\<lparr>cstate := (cstate a)\<lparr>clock := fst ev\<rparr>\<rparr>"
  from assms have "processingQueue (cstate ?a) = []
           \<or> (\<exists>c \<in> snd ` set (closureOf ?a).
                 int (length (processingQueue (cstate ?a))) \<le> maxConcurrentProcessing c)"
    by simp
  from dispatch_queue_within[OF this, of v "fst ev" "snd ev"] False
  show ?thesis by (simp add: stepApp_def)
qed

lemma runApp_queue_within:
  "processingQueue (cstate a) = []
     \<or> (\<exists>c \<in> snd ` set (closureOf a).
           int (length (processingQueue (cstate a))) \<le> maxConcurrentProcessing c) \<Longrightarrow>
   processingQueue (cstate (runApp v a evs)) = []
     \<or> (\<exists>c \<in> snd ` set (closureOf (runApp v a evs)).
           int (length (processingQueue (cstate (runApp v a evs)))) \<le> maxConcurrentProcessing c)"
proof (induction evs arbitrary: a)
  case Nil
  then show ?case by simp
next
  case (Cons ev evs)
  from Cons.IH[OF stepApp_queue_within[OF Cons.prems, of v ev]] show ?case by simp
qed

text \<open>A closure is made at a click on the start button and handed on from there: what
  holds of the render at every such click holds of every closure.\<close>

lemma closures_register:
  "set (closures (register c a)) \<subseteq> insert c (set (closures a))"
  by (auto simp: closures_def register_def)

lemma dispatch_closures:
  assumes "\<forall>c \<in> set (closures a). P c" and "\<not> isListening (cstate a) \<Longrightarrow> P (render a)"
  shows "\<forall>c \<in> set (closures (dispatch v now ev a)). P c"
proof (cases ev)
  case ClickStart
  with assms show ?thesis by (auto simp: closures_def)
next
  case MicrophoneGranted
  show ?thesis
  proof (cases "clicks a")
    case Nil
    with assms MicrophoneGranted show ?thesis by simp
  next
    case (Cons c cs)
    let ?b = "runHandler v c now StartListening (a\<lparr>clicks := cs\<rparr>)"
    from assms(1) Cons have pc: "P c" and rest: "\<forall>x \<in> set (closures ?b). P x"
      by (auto simp: closures_def runHandler_fields)
    from closures_register[of c ?b] pc rest
    have r: "\<forall>x \<in> set (closures (register c ?b)). P x" by blast
    from r pc have "\<forall>x \<in> set (closures ((register c ?b)\<lparr>startTimers := startTimers a @ [c]\<rparr>)). P x"
      using assms(1) by (auto simp: closures_def register_fields runHandler_fields)
    moreover from r pc
    have "\<forall>x \<in> set (closures ((register c ?b)\<lparr>intervalClosure :=
              (if continuousRecording (cstate a) then intervalClosure a else c)\<rparr>)). P x"
      using assms(1) by (auto simp: closures_def register_fields runHandler_fields)
    ultimately show ?thesis using MicrophoneGranted Cons
      by (cases v) (simp_all add: inClosure_def)
  qed
next
  case MicrophoneDenied
  with assms(1) show ?thesis by (cases "clicks a") (auto simp: closures_def)
next
  case StartTimer
  with assms(1) show ?thesis
    by (cases "startTimers a"; cases v) (auto simp: closures_def runHandler_fields)
next
  case FirstChunkTimer
  show ?thesis
  proof (cases "chunkTimers a")
    case Nil
    with assms FirstChunkTimer show ?thesis by simp
  next
    case (Cons c cs)
    let ?b = "runHandler v c now RecordChunk (a\<lparr>chunkTimers := cs\<rparr>)"
    from assms(1) Cons have pc: "P c" and rest: "\<forall>x \<in> set (closures ?b). P x"
      by (auto simp: closures_def runHandler_fields)
    from closures_register[of c ?b] pc rest
    have "\<forall>x \<in> set (closures (register c ?b)). P x" by blast
    with FirstChunkTimer Cons show ?thesis by (simp add: inClosure_def)
  qed
next
  case IntervalTick
  let ?c = "intervalClosure a"
  let ?b = "runHandler v ?c now RecordChunk a"
  from assms(1) have pc: "P ?c" and rest: "\<forall>x \<in> set (closures ?b). P x"
    by (auto simp: closures_def runHandler_fields)
  from closures_register[of ?c ?b] pc rest
  have "\<forall>x \<in> set (closures (register ?c ?b)). P x" by blast
  with IntervalTick assms(1) show ?thesis by (simp add: inClosure_def)
next
  case (RecorderStops c sizes)
  with assms(1) show ?thesis
    by (cases "map_of (closureOf a) c") (auto simp: closures_def runHandler_fields)
next
  case (CallSettles c out)
  with assms(1) show ?thesis
    by (cases "map_of (closureOf a) c") (auto simp: closures_def runHandler_fields)
next
  case ClickClear
  with assms(1) show ?thesis by (cases v) (auto simp: closures_def runHandler_fields)
qed (use assms(1) in \<open>auto simp: closures_def runHandler_fields\<close>)

lemma stepApp_closures:
  assumes "\<forall>c \<in> set (closures a). P c" and "\<not> isListening (cstate a) \<Longrightarrow> P (render a)"
  shows "\<forall>c \<in> set (closures (stepApp v ev a)). P c"
proof (cases "fst ev < clock (cstate a)")
  case True
  with assms show ?thesis by (simp add: stepApp_def)
next
  case False
  let ?a = "a\<lparr>cstate := (cstate a)\<lparr>clock := fst ev\<rparr>\<rparr>"
  have "\<forall>c \<in> set (closures (dispatch v (fst ev) (snd ev) ?a)). P c"
  proof (rule dispatch_closures)
    from assms(1) show "\<forall>c \<in> set (closures ?a). P c" by (simp add: closures_def)
    show "P (render ?a)" if "\<not> isListening (cstate ?a)"
      using that assms(2) by (simp add: render_def)
  qed
  with False show ?thesis by (simp add: stepApp_def)
qed

text \<open>The limit of the basic component stays between 1 and 5, that of the enhanced
  component is never set.\<close>

lemma dispatch_limit:
  "maxConcurrentProcessing (settings (dispatch Enhanced now ev a))
     = maxConcurrentProcessing (settings a)
   \<and> (1 \<le> maxConcurrentProcessing (settings a) \<and> maxConcurrentProcessing (settings a) \<le> 5 \<longrightarrow>
        1 \<le> maxConcurrentProcessing (settings (dispatch Basic now ev a))
        \<and> maxConcurrentProcessing (settings (dispatch Basic now ev a)) \<le> 5)"
proof (cases ev)
  case MicrophoneGranted
  then show ?thesis by (cases "clicks a") (simp_all add: inClosure_fields del: handle.simps)
next
  case StartTimer
  then show ?thesis by (cases "startTimers a") (simp_all add: runHandler_fields del: handle.simps)
next
  case FirstChunkTimer
  then show ?thesis by (cases "chunkTimers a") (simp_all add: inClosure_fields del: handle.simps)
next
  case (RecorderStops c sizes)
  then show ?thesis
    by (cases "map_of (closureOf a) c") (simp_all add: runHandler_fields del: handle.simps)
next
  case (CallSettles c out)
  then show ?thesis
    by (cases "map_of (closureOf a) c") (simp_all add: runHandler_fields del: handle.simps)
qed (simp_all add: inClosure_fields runHandler_fields del: handle.simps)

lemma stepApp_limit:
  "maxConcurrentProcessing (settings (stepApp Enhanced ev a))
     = maxConcurrentProcessing (settings a)
   \<and> (1 \<le> maxConcurrentProcessing (settings a) \<and> maxConcurrentProcessing (settings a) \<le> 5 \<longrightarrow>
        1 \<le> maxConcurrentProcessing (settings (stepApp Basic ev a))
        \<and> maxConcurrentProcessing (settings (stepApp Basic ev a)) \<le> 5)"
  using dispatch_limit[of "fst ev" "snd ev" "a\<lparr>cstate := (cstate a)\<lparr>clock := fst ev\<rparr>\<rparr>"]
  by (simp add: stepApp_def)

lemma runApp_limit_enhanced:
  "maxConcurrentProcessing (settings a) = 2 \<Longrightarrow>
   \<forall>c \<in> set (closures a). maxConcurrentProcessing c = 2 \<Longrightarrow>
   maxConcurrentProcessing (settings (runApp Enhanced a evs)) = 2
   \<and> (\<forall>c \<in> set (closures (runApp Enhanced a evs)). maxConcurrentProcessing c = 2)"
proof (induction evs arbitrary: a)
  case Nil
  then show ?case by simp
next
  case (Cons ev evs)
  from Cons.prems(1) stepApp_limit[of ev a]
  have s: "maxConcurrentProcessing (settings (stepApp Enhanced ev a)) = 2" by simp
  from Cons.prems(1) have r: "maxConcurrentProcessing (render a) = 2" by (simp add: render_def)
  have "\<forall>c \<in> set (closures (stepApp Enhanced ev a)). maxConcurrentProcessing c = 2"
    using Cons.prems(2) r
    by (rule stepApp_closures[where P = "\<lambda>c. maxConcurrentProcessing c = 2"])
  from Cons.IH[OF s this] show ?case by simp
qed

lemma runApp_limit_basic:
  "1 \<le> maxConcurrentProcessing (settings a) \<and> maxConcurrentProcessing (settings a) \<le> 5 \<Longrightarrow>
   \<forall>c \<in> set (closures a). maxConcurrentProcessing c \<le> 5 \<Longrightarrow>
   (1 \<le> maxConcurrentProcessing (settings (runApp Basic a evs))
    \<and> maxConcurrentProcessing (settings (runApp Basic a evs)) \<le> 5)
   \<and> (\<forall>c \<in> set (closures (runApp Basic a evs)). maxConcurrentProcessing c \<le> 5)"
proof (induction evs arbitrary: a)
  case Nil
  then show ?case by simp
next
  case (Cons ev evs)
  from Cons.prems(1) stepApp_limit[of ev a]
  have s: "1 \<le> maxConcurrentProcessing (settings (stepApp Basic ev a))
           \<and> maxConcurrentProcessing (settings (stepApp Basic ev a)) \<le> 5" by simp
  from Cons.prems(1) have r: "maxConcurrentProcessing (render a) \<le> 5" by (simp add: render_def)
  have "\<forall>c \<in> set (closures (stepApp Basic ev a)). maxConcurrentProcessing c \<le> 5"
    using Cons.prems(2) r
    by (rule stepApp_closures[where P = "\<lambda>c. maxConcurrentProcessing c \<le> 5"])
  from Cons.IH[OF s this] show ?case by simp
qed

lemma mount_closures: "set (closures (mount v language)) = {initialRender v language}"
  by (simp add: closures_def mount_def)

lemma closureOf_closures: "snd ` set (closureOf a) \<subseteq> set (closures a)"
  by (auto simp: closures_def)

lemma stepApp_settle_releases:
  assumes "chunkId \<in> set (inFlight (cstate a))" and "chunkId \<notin> set (unread a)"
    and "map_of (closureOf a) chunkId = Some c" and "clock (cstate a) \<le> now"
    and "v = Basic \<longrightarrow> processAudioChunk_settle_basic c chunkId now out \<noteq> None"
  shows "chunkId \<notin> fst ` set (processingQueue (cstate (stepApp v (now, CallSettles chunkId out) a)))"
proof -
  let ?s = "(cstate a)\<lparr>clock := now\<rparr>"
  from assms(1) have f: "chunkId \<in> set (inFlight ?s)" by simp
  have "chunkId \<notin> fst ` set (processingQueue (handle v c now (Settle chunkId out) ?s))"
  proof (cases v)
    case Enhanced
    with settle_releases[OF f, of c now out] show ?thesis by simp
  next
    case Basic
    with assms(5) have "out \<noteq> ReadFailed"
      by (auto simp: processAudioChunk_settle_basic_def)
    from settle_basic_releases[OF f this, of c now] Basic show ?thesis by simp
  qed
  then show ?thesis using assms
    by (auto simp: stepApp_def runHandler_fields simp del: handle.simps)
qed

text \<open>
  C1, as stated: the queue never holds more entries than \<open>maxConcurrentProcessing\<close>. In
  the basic session three calls are in flight under the limit 3 when the slider is moved
  to 1: the queue holds three entries against a limit of 1. Two of the calls then settle,
  and the \<open>onstop\<close> of the fourth recorder, whose closure holds the limit 3, registers its
  chunk with one entry in the queue: two entries against the limit of 1. When listening
  is instead stopped and started again, the closure of the new recording holds the limit
  1, and the three entries are still in the queue.
\<close>

theorem limit_lowered_counterexample:
  "length (processingQueue (cstate (runApp Basic (mount Basic ''python'') limitLowered))) = 3
   \<and> maxConcurrentProcessing (settings (runApp Basic (mount Basic ''python'') limitLowered)) = 1
   \<and> \<not> int (length (processingQueue (cstate (runApp Basic (mount Basic ''python'') limitLowered))))
         \<le> maxConcurrentProcessing (settings (runApp Basic (mount Basic ''python'') limitLowered))
   \<and> map fst (processingQueue (cstate (runApp Basic (mount Basic ''python'') (butlast admittedAboveLimit))))
       = [''chunk_1003100_3'']
   \<and> maxConcurrentProcessing (settings (runApp Basic (mount Basic ''python'') (butlast admittedAboveLimit))) = 1
   \<and> map fst (processingQueue (cstate (runApp Basic (mount Basic ''python'') admittedAboveLimit)))
       = [''chunk_1003100_3'', ''chunk_1004500_4'']
   \<and> maxConcurrentProcessing (intervalClosure (runApp Basic (mount Basic ''python'') restarted)) = 1
   \<and> recordingInterval (cstate (runApp Basic (mount Basic ''python'') restarted))
   \<and> length (processingQueue (cstate (runApp Basic (mount Basic ''python'') restarted))) = 3"
  by code_simp

text \<open>
  C1, amended: the queue grows only at the \<open>onstop\<close> of a recorder, and only from
  strictly below the \<open>maxConcurrentProcessing\<close> that the closure of that recorder
  captured. In every state that any sequence of events of the mounted component reaches,
  the queue is empty or no longer than the limit captured by the closure of one of the
  recorders started so far, and its keys are distinct. In the enhanced component, which
  has no control for the limit, the queue is never longer than \<open>maxConcurrentProcessing\<close>;
  in the basic component it is never longer than 5, the top of the slider. When a call in
  flight settles (in the basic component: when its outcome is one that settles it), its
  entry is removed.
\<close>

theorem queue_within_captured_limit:
  "(processingQueue (cstate (runApp v (mount v language) evs)) = []
    \<or> (\<exists>c \<in> snd ` set (closureOf (runApp v (mount v language) evs)).
          int (length (processingQueue (cstate (runApp v (mount v language) evs))))
            \<le> maxConcurrentProcessing c))
   \<and> distinct (map fst (processingQueue (cstate (runApp v (mount v language) evs))))
   \<and> int (length (processingQueue (cstate (runApp Enhanced (mount Enhanced language) evs))))
       \<le> maxConcurrentProcessing (settings (runApp Enhanced (mount Enhanced language) evs))
   \<and> int (length (processingQueue (cstate (runApp Basic (mount Basic language) evs)))) \<le> 5
   \<and> (length (processingQueue (cstate (stepApp v ev a))) > length (processingQueue (cstate a)) \<longrightarrow>
        (\<exists>chunkId sizes c. snd ev = RecorderStops chunkId sizes
           \<and> map_of (closureOf a) chunkId = Some c
           \<and> int (length (processingQueue (cstate a))) < maxConcurrentProcessing c))
   \<and> (chunkId \<in> set (inFlight (cstate b)) \<and> chunkId \<notin> set (unread b)
        \<and> map_of (closureOf b) chunkId = Some c \<and> clock (cstate b) \<le> now
        \<and> (v = Basic \<longrightarrow> processAudioChunk_settle_basic c chunkId now out \<noteq> None) \<longrightarrow>
        chunkId \<notin> fst ` set (processingQueue
          (cstate (stepApp v (now, CallSettles chunkId out) b))))"
proof -
  have within: "processingQueue (cstate (runApp w (mount w language) evs)) = []
    \<or> (\<exists>c \<in> snd ` set (closureOf (runApp w (mount w language) evs)).
          int (length (processingQueue (cstate (runApp w (mount w language) evs))))
            \<le> maxConcurrentProcessing c)" for w
    by (rule runApp_queue_within) (simp add: mount_def init_def)
  have "distinct (map fst (processingQueue (cstate (mount v language))))"
    by (simp add: mount_def init_def)
  then have dist: "distinct (map fst (processingQueue (cstate (runApp v (mount v language) evs))))"
    by (rule runApp_invariant[where P = "\<lambda>s. distinct (map fst (processingQueue s))", rotated 2])
       (simp_all add: handle_queue_distinct del: handle.simps)
  have le: "maxConcurrentProcessing (settings (runApp Enhanced (mount Enhanced language) evs)) = 2
   \<and> (\<forall>c \<in> set (closures (runApp Enhanced (mount Enhanced language) evs)).
          maxConcurrentProcessing c = 2)"
    by (rule runApp_limit_enhanced) (simp_all add: mount_closures, simp_all add: mount_def initialRender_def)
  have enh: "int (length (processingQueue (cstate (runApp Enhanced (mount Enhanced language) evs))))
       \<le> maxConcurrentProcessing (settings (runApp Enhanced (mount Enhanced language) evs))"
  proof (cases "processingQueue (cstate (runApp Enhanced (mount Enhanced language) evs)) = []")
    case True
    with le show ?thesis by simp
  next
    case False
    with within[of Enhanced] obtain c where
      c: "c \<in> snd ` set (closureOf (runApp Enhanced (mount Enhanced language) evs))"
      and n: "int (length (processingQueue (cstate (runApp Enhanced (mount Enhanced language) evs))))
                \<le> maxConcurrentProcessing c" by blast
    from c closureOf_closures have "c \<in> set (closures (runApp Enhanced (mount Enhanced language) evs))"
      by blast
    with le have "maxConcurrentProcessing c = 2" by blast
    with n le show ?thesis by simp
  qed
  have lb: "(1 \<le> maxConcurrentProcessing (settings (runApp Basic (mount Basic language) evs))
    \<and> maxConcurrentProcessing (settings (runApp Basic (mount Basic language) evs)) \<le> 5)
   \<and> (\<forall>c \<in> set (closures (runApp Basic (mount Basic language) evs)).
          maxConcurrentProcessing c \<le> 5)"
    by (rule runApp_limit_basic) (simp_all add: mount_closures, simp_all add: mount_def initialRender_def)
  have bas: "int (length (processingQueue (cstate (runApp Basic (mount Basic language) evs)))) \<le> 5"
  proof (cases "processingQueue (cstate (runApp Basic (mount Basic language) evs)) = []")
    case True
    then show ?thesis by simp
  next
    case False
    with within[of Basic] obtain c where
      c: "c \<in> snd ` set (closureOf (runApp Basic (mount Basic language) evs))"
      and n: "int (length (processingQueue (cstate (runApp Basic (mount Basic language) evs))))
                \<le> maxConcurrentProcessing c" by blast
    from c closureOf_closures have "c \<in> set (closures (runApp Basic (mount Basic language) evs))"
      by blast
    with lb have "maxConcurrentProcessing c \<le> 5" by blast
    with n show ?thesis by linarith
  qed
  have grow: "length (processingQueue (cstate (stepApp v ev a))) > length (processingQueue (cstate a)) \<longrightarrow>
        (\<exists>chunkId sizes c. snd ev = RecorderStops chunkId sizes
           \<and> map_of (closureOf a) chunkId = Some c
           \<and> int (length (processingQueue (cstate a))) < maxConcurrentProcessing c)"
  proof
    assume g: "length (processingQueue (cstate (stepApp v ev a))) > length (processingQueue (cstate a))"
    let ?a = "a\<lparr>cstate := (cstate a)\<lparr>clock := fst ev\<rparr>\<rparr>"
    from g have "\<not> fst ev < clock (cstate a)" by (auto simp: stepApp_def)
    with g have "length (processingQueue (cstate (dispatch v (fst ev) (snd ev) ?a)))
                   > length (processingQueue (cstate ?a))" by (simp add: stepApp_def)
    from dispatch_queue_grows[OF this]
    show "\<exists>chunkId sizes c. snd ev = RecorderStops chunkId sizes
           \<and> map_of (closureOf a) chunkId = Some c
           \<and> int (length (processingQueue (cstate a))) < maxConcurrentProcessing c" by simp
  qed
  have rel: "chunkId \<in> set (inFlight (cstate b)) \<and> chunkId \<notin> set (unread b)
        \<and> map_of (closureOf b) chunkId = Some c \<and> clock (cstate b) \<le> now
        \<and> (v = Basic \<longrightarrow> processAudioChunk_settle_basic c chunkId now out \<noteq> None) \<longrightarrow>
        chunkId \<notin> fst ` set (processingQueue
          (cstate (stepApp v (now, CallSettles chunkId out) b)))"
    using stepApp_settle_releases[of chunkId b c now v out] by blast
  from within[of v] dist enh bas grow rel show ?thesis by blast
qed

theorem queue_within_captured_limit_witness:
  "length (processingQueue (cstate (runApp Basic (mount Basic ''python'') basicThreeAdmitted))) = 3
   \<and> (\<exists>c \<in> snd ` set (closureOf (runApp Basic (mount Basic ''python'') basicThreeAdmitted)).
         int (length (processingQueue (cstate (runApp Basic (mount Basic ''python'') basicThreeAdmitted))))
           \<le> maxConcurrentProcessing c)
   \<and> length (processingQueue (cstate (stepApp Basic (1002300, RecorderStops ''chunk_1000300_1'' [32000])
         (runApp Basic (mount Basic ''python'') basicSessionStart))))
       > length (processingQueue (cstate (runApp Basic (mount Basic ''python'') basicSessionStart)))
   \<and> map_of (closureOf (runApp Basic (mount Basic ''python'') basicSessionStart)) ''chunk_1000300_1''
       = Some (initialRender Basic ''python'')
   \<and> int (length (processingQueue (cstate (runApp Basic (mount Basic ''python'') basicSessionStart))))
       < maxConcurrentProcessing (initialRender Basic ''python'')
   \<and> ''chunk_1000300_1'' \<in> set (inFlight (cstate (runApp Basic (mount Basic ''python'') basicFirstAdmitted)))
   \<and> ''chunk_1000300_1'' \<notin> set (unread (runApp Basic (mount Basic ''python'') basicFirstAdmitted))
   \<and> clock (cstate (runApp Basic (mount Basic ''python'') basicFirstAdmitted)) \<le> 1005500
   \<and> ''chunk_1000300_1'' \<notin> fst ` set (processingQueue (cstate
         (stepApp Basic (1005500, CallSettles ''chunk_1000300_1'' (Content sampleResponseText))
            (runApp Basic (mount Basic ''python'') basicFirstAdmitted))))"
proof -
  let ?A = "runApp Basic (mount Basic ''python'') basicSessionStart"
  let ?B = "runApp Basic (mount Basic ''python'') basicFirstAdmitted"
  have n: "length (processingQueue (cstate (runApp Basic (mount Basic ''python'') basicThreeAdmitted))) = 3"
    by code_simp
  have g: "length (processingQueue (cstate (stepApp Basic (1002300, RecorderStops ''chunk_1000300_1'' [32000]) ?A)))
       > length (processingQueue (cstate ?A))"
    by code_simp
  have m: "map_of (closureOf ?A) ''chunk_1000300_1'' = Some (initialRender Basic ''python'')"
    by code_simp
  have f: "''chunk_1000300_1'' \<in> set (inFlight (cstate ?B))" by code_simp
  have u: "''chunk_1000300_1'' \<notin> set (unread ?B)" by code_simp
  have mb: "map_of (closureOf ?B) ''chunk_1000300_1'' = Some (initialRender Basic ''python'')"
    by code_simp
  have k: "clock (cstate ?B) \<le> 1005500" by code_simp
  have o: "processAudioChunk_settle_basic (initialRender Basic ''python'') ''chunk_1000300_1''
             1005500 (Content sampleResponseText) \<noteq> None"
    by (simp add: processAudioChunk_settle_basic_def)
  note inst = queue_within_captured_limit[where v = Basic and language = "''python''"
      and evs = basicThreeAdmitted
      and ev = "(1002300, RecorderStops ''chunk_1000300_1'' [32000])" and a = ?A
      and chunkId = "''chunk_1000300_1''" and b = ?B and c = "initialRender Basic ''python''"
      and now = 1005500 and out = "Content sampleResponseText"]
  from inst n have c1: "\<exists>c \<in> snd ` set (closureOf (runApp Basic (mount Basic ''python'') basicThreeAdmitted)).
         int (length (processingQueue (cstate (runApp Basic (mount Basic ''python'') basicThreeAdmitted))))
           \<le> maxConcurrentProcessing c"
    by auto
  from inst g have "\<exists>chunkId sizes c. snd (1002300::int, RecorderStops ''chunk_1000300_1'' [32000])
             = RecorderStops chunkId sizes
           \<and> map_of (closureOf ?A) chunkId = Some c
           \<and> int (length (processingQueue (cstate ?A))) < maxConcurrentProcessing c"
    by blast
  with m have c2: "int (length (processingQueue (cstate ?A)))
       < maxConcurrentProcessing (initialRender Basic ''python'')"
    by auto
  from inst f u mb k o have c3: "''chunk_1000300_1'' \<notin> fst ` set (processingQueue (cstate
         (stepApp Basic (1005500, CallSettles ''chunk_1000300_1'' (Content sampleResponseText)) ?B)))"
    by blast
  from n c1 g m c2 f u k c3 show ?thesis by blast
qed

section \<open>The enhanced component as mounted\<close>

text \<open>
  \<open>monitorAudioLevel\<close> sets the audio level only while \<open>continuousRecordingRef.current\<close>
  is set, \<open>stopListening\<close> resets it to 0, and the start button can be clicked only while
  the component is not listening: every closure of the enhanced component captures the
  level 0, under a positive threshold.
\<close>

lemma recordChunk_quiet: "quiet c \<Longrightarrow> recordChunk c now s = s"
  by (simp add: recordChunk_def quiet_def)

lemma register_idle: "recorders (cstate a) = [] \<Longrightarrow> register c a = a"
  by (simp add: register_def)

lemma dispatch_idle:
  assumes i: "idle a"
  shows "idle (dispatch Enhanced now ev a)"
proof -
  note d = i[unfolded idle_def]
  from d have qs: "\<forall>c \<in> set (closures a). quiet c" by blast
  have q: "quiet (render a)" if "\<not> isListening (cstate a)"
    using d that by (simp add: quiet_def render_def)
  from qs q have cl: "\<forall>c \<in> set (closures (dispatch Enhanced now ev a)). quiet c"
    by (rule dispatch_closures)
  have rest: "recorders (cstate b) = [] \<and> inFlight (cstate b) = [] \<and> processingQueue (cstate b) = []
     \<and> responses (cstate b) = [] \<and> pendingResponses (cstate b) = []
     \<and> flushTimers (cstate b) = [] \<and> flushTimes (cstate b) = [] \<and> closureOf b = []
     \<and> (stream (cstate b) \<longrightarrow> isListening (cstate b))
     \<and> (continuousRecording (cstate b) \<longrightarrow> stream (cstate b))
     \<and> (\<not> isListening (cstate b) \<longrightarrow> audioLevel (settings b) = 0)
     \<and> 0 < minAudioLevel (settings b)" if b: "b = dispatch Enhanced now ev a" for b
  proof (cases ev)
    case ClickStart
    with b d show ?thesis by auto
  next
    case MicrophoneGranted
    with b d show ?thesis
      by (cases "clicks a")
         (auto simp: inClosure_def runHandler_def register_def startListening_def)
  next
    case MicrophoneDenied
    with b d show ?thesis by auto
  next
    case StartTimer
    with b d show ?thesis
      by (cases "startTimers a")
         (auto simp: runHandler_def startContinuousRecording_def)
  next
    case FirstChunkTimer
    show ?thesis
    proof (cases "chunkTimers a")
      case Nil
      with b d FirstChunkTimer show ?thesis by auto
    next
      case (Cons c cs)
      with qs have "quiet c" by (simp add: closures_def)
      with b d FirstChunkTimer Cons show ?thesis
        by (auto simp: inClosure_def runHandler_def register_def recordChunk_quiet)
    qed
  next
    case IntervalTick
    from qs have "quiet (intervalClosure a)" by (simp add: closures_def)
    with b d IntervalTick show ?thesis
      by (auto simp: inClosure_def runHandler_def register_def recordChunk_quiet)
  next
    case (RecorderStops c sizes)
    with b d show ?thesis by auto
  next
    case (CallSettles c out)
    with b d show ?thesis by auto
  next
    case FlushTimerFires
    with b d show ?thesis by (auto simp: runHandler_def fireFlushTimer_def)
  next
    case ClickStop
    with b d show ?thesis
      by (auto simp: runHandler_def stopListening_def stopContinuousRecording_def
          awaitQueue_def Let_def)
  next
    case ClickClear
    with b d show ?thesis by (auto simp: runHandler_def clearResponses_def)
  next
    case (MonitorFrame level)
    with b d show ?thesis by auto
  next
    case (SetMaxConcurrentProcessing n)
    with b d show ?thesis by auto
  next
    case (SetResponseUpdateDelay n)
    with b d show ?thesis by auto
  next
    case (SetMinAudioLevel x)
    with b d show ?thesis by auto
  next
    case (SetAutoScreenshot x)
    with b d show ?thesis by auto
  next
    case (SetScreenCapturing x)
    with b d show ?thesis by auto
  next
    case (LanguageChanged l)
    with b d show ?thesis by auto
  qed
  from rest[OF refl] cl show ?thesis unfolding idle_def by blast
qed

lemma stepApp_idle: "idle a \<Longrightarrow> idle (stepApp Enhanced ev a)"
proof -
  assume i: "idle a"
  then have "idle (a\<lparr>cstate := (cstate a)\<lparr>clock := fst ev\<rparr>\<rparr>)"
    by (simp add: idle_def closures_def)
  from dispatch_idle[OF this] i show ?thesis by (simp add: stepApp_def)
qed

lemma mount_idle: "idle (mount Enhanced language)"
  by (simp add: idle_def mount_def init_def initialRender_def closures_def quiet_def)

text \<open>
  So the \<open>recordChunk\<close> of the enhanced component returns before it starts a recorder
  (\<open>audioLevel < minAudioLevel\<close>): in no state that a sequence of events of the mounted
  component reaches has anything been recorded, admitted or shown. The properties of its
  \<open>processAudioChunk\<close> and of its presenter are properties of these functions, for the
  calls that they are given.
\<close>

theorem enhanced_admits_nothing:
  "recorders (cstate (runApp Enhanced (mount Enhanced language) evs)) = []
   \<and> processingQueue (cstate (runApp Enhanced (mount Enhanced language) evs)) = []
   \<and> inFlight (cstate (runApp Enhanced (mount Enhanced language) evs)) = []
   \<and> responses (cstate (runApp Enhanced (mount Enhanced language) evs)) = []
   \<and> pendingResponses (cstate (runApp Enhanced (mount Enhanced language) evs)) = []
   \<and> flushTimes (cstate (runApp Enhanced (mount Enhanced language) evs)) = []"
proof -
  have "idle a \<Longrightarrow> idle (runApp Enhanced a evs)" for a
    by (induction evs arbitrary: a) (simp_all add: stepApp_idle)
  from this[OF mount_idle] show ?thesis by (simp add: idle_def)
qed

section \<open>Release of the queue entry\<close>

lemma try_no_delete: "DeleteFromQueue c \<notin> set (processAudioChunk_try cap chunkId now out)"
  by (cases out)
     (auto simp: processAudioChunk_try_def processAudioChunk_catch_def split: parsed.splits)

lemma try_basic_no_delete: "DeleteFromQueue c \<notin> set (processAudioChunk_try_basic cap chunkId now out)"
  by (cases out)
     (auto simp: processAudioChunk_try_basic_def processAudioChunk_catch_basic_def split: parsed.splits)

lemma count_settle:
  "count_list (processAudioChunk_settle cap chunkId now out) (DeleteFromQueue c)
     = (if c = chunkId then 1 else 0)"
  using try_no_delete[of c cap chunkId now out]
  by (simp add: processAudioChunk_settle_def processAudioChunk_finally_def)

lemma count_settle_basic:
  "processAudioChunk_settle_basic cap chunkId now out = Some effects \<Longrightarrow>
   count_list effects (DeleteFromQueue c) = (if c = chunkId then 1 else 0)"
  using try_basic_no_delete[of c cap chunkId now out]
  by (auto simp: processAudioChunk_settle_basic_def processAudioChunk_finally_def split: if_splits)

lemma onstop_registers:
  assumes "length (filter (\<lambda>sz. sz > 0) sizes) > 0"
    and "shouldProcess cap (sum_list (filter (\<lambda>sz. sz > 0) sizes)) s"
  shows "chunkId \<in> fst ` set (processingQueue (onstop cap now chunkId sizes s))
         \<and> chunkId \<in> set (inFlight (onstop cap now chunkId sizes s))"
proof -
  from assms(2) have "\<not> earlyReturn (sum_list (filter (\<lambda>sz. sz > 0) sizes))"
    by (simp add: shouldProcess_def earlyReturn_def)
  with assms show ?thesis
    by (simp add: onstop_def Let_def callProcessAudioChunk_def dom_update)
qed

lemma onstop_basic_registers:
  assumes "length (filter (\<lambda>sz. sz > 0) sizes) > 0"
    and "shouldProcess_basic cap (sum_list (filter (\<lambda>sz. sz > 0) sizes)) s"
  shows "chunkId \<in> fst ` set (processingQueue (onstop_basic cap now chunkId sizes s))
         \<and> chunkId \<in> set (inFlight (onstop_basic cap now chunkId sizes s))"
  using assms by (simp add: onstop_basic_def Let_def callProcessAudioChunk_basic_def dom_update)

text \<open>Chunk ids with different counters differ, so every recorder gets a fresh id.\<close>

lemma digit_inj:
  assumes "0 \<le> a" "a < 10" "0 \<le> b" "b < 10" "digit a = digit b"
  shows "a = b"
proof -
  have d: "distinct ''0123456789''" by simp
  have "nat a < length ''0123456789''" "nat b < length ''0123456789''"
    using assms by simp_all
  with d assms(5) have "nat a = nat b"
    unfolding digit_def by (simp only: nth_eq_iff_index_eq)
  with assms show ?thesis by simp
qed

lemma digit_mem: "0 \<le> a \<Longrightarrow> a < 10 \<Longrightarrow> digit a \<in> set ''0123456789''"
  unfolding digit_def by (rule nth_mem) simp

lemma digits_nonempty: "digits n \<noteq> []"
  by (subst digits.simps) simp

lemma digits_chars: "0 \<le> n \<Longrightarrow> set (digits n) \<subseteq> set ''0123456789''"
proof (induction n rule: digits.induct)
  case (1 n)
  show ?case
  proof (cases "n < 10")
    case True
    with "1.prems" digit_mem[of n] show ?thesis by (subst digits.simps) simp
  next
    case False
    then have "0 \<le> n div 10" by simp
    with "1.IH" False have "set (digits (n div 10)) \<subseteq> set ''0123456789''" by simp
    moreover have "digit (n mod 10) \<in> set ''0123456789''"
      by (rule digit_mem) simp_all
    ultimately show ?thesis using False by (subst digits.simps) simp
  qed
qed

lemma digits_inj: "0 \<le> n \<Longrightarrow> 0 \<le> m \<Longrightarrow> digits n = digits m \<Longrightarrow> n = m"
proof (induction n arbitrary: m rule: digits.induct)
  case (1 n)
  show ?case
  proof (cases "n < 10")
    case True
    note n = this
    show ?thesis
    proof (cases "m < 10")
      case True
      from "1.prems"(3) n True have "digit n = digit m"
        by (simp add: digits.simps[of n] digits.simps[of m])
      with "1.prems" n True show ?thesis by (simp add: digit_inj)
    next
      case False
      from "1.prems"(3) n False have "digits (m div 10) = []"
        by (simp add: digits.simps[of n] digits.simps[of m])
      with digits_nonempty show ?thesis by blast
    qed
  next
    case False
    note n = this
    show ?thesis
    proof (cases "m < 10")
      case True
      from "1.prems"(3) n True have "digits (n div 10) = []"
        by (simp add: digits.simps[of n] digits.simps[of m])
      with digits_nonempty show ?thesis by blast
    next
      case False
      from "1.prems"(3) n False
      have e: "digits (n div 10) = digits (m div 10)" "digit (n mod 10) = digit (m mod 10)"
        by (simp_all add: digits.simps[of n] digits.simps[of m])
      from n False have "0 \<le> n div 10" "0 \<le> m div 10" by simp_all
      with "1.IH"[OF n _ _ e(1)] have q: "n div 10 = m div 10" by simp
      have "n mod 10 = m mod 10"
        by (rule digit_inj[OF _ _ _ _ e(2)]) simp_all
      with q show ?thesis by (metis div_mult_mod_eq)
    qed
  qed
qed

lemma takeWhile_until: "u \<notin> set xs \<Longrightarrow> takeWhile (\<lambda>x. x \<noteq> u) (xs @ u # ys) = xs"
  by (induction xs) auto

lemma last_part_eq:
  assumes "u \<notin> set d" "u \<notin> set d'" "a @ u # d = a' @ u # d'"
  shows "d = d'"
proof -
  have "takeWhile (\<lambda>x. x \<noteq> u) (rev (a @ u # d)) = rev d"
    using assms(1) takeWhile_until[of u "rev d" "rev a"] by simp
  moreover have "takeWhile (\<lambda>x. x \<noteq> u) (rev (a' @ u # d')) = rev d'"
    using assms(2) takeWhile_until[of u "rev d'" "rev a'"] by simp
  ultimately have "rev d = rev d'" using assms(3) by simp
  then show ?thesis by simp
qed

lemma generateChunkId_inj:
  assumes "0 \<le> c" "0 \<le> c'" "generateChunkId n c = generateChunkId n' c'"
  shows "c = c'"
proof -
  have u: "CHR ''_'' \<notin> set (digits c)" "CHR ''_'' \<notin> set (digits c')"
    using digits_chars[OF assms(1)] digits_chars[OF assms(2)] by auto
  from assms have "(''chunk_'' @ toString n) @ CHR ''_'' # digits c
                 = (''chunk_'' @ toString n') @ CHR ''_'' # digits c'"
    by (simp add: generateChunkId_def toString_def)
  from last_part_eq[OF u this] have "digits c = digits c'" .
  with assms show ?thesis by (simp add: digits_inj)
qed

lemma chunkIds_other_fields:
  assumes "chunkIds s"
    and "chunkCounter s' = chunkCounter s" and "recorders s' = recorders s"
    and "inFlight s' = inFlight s" and "processingQueue s' = processingQueue s"
  shows "chunkIds s'"
  using assms unfolding chunkIds_def by simp

lemma perform_ids_fields:
  "chunkCounter (perform cap now e s) = chunkCounter s
   \<and> recorders (perform cap now e s) = recorders s"
  by (cases e) (simp_all add: updateResponsesWithDelay_other)

lemma performAll_ids_fields:
  "chunkCounter (performAll cap now es s) = chunkCounter s
   \<and> recorders (performAll cap now es s) = recorders s"
  by (induction es arbitrary: s) (simp_all add: perform_ids_fields del: perform.simps)

lemma perform_keys_eq:
  "fst ` set (processingQueue (perform cap now e s))
     = fst ` set (processingQueue s) - {c. e = DeleteFromQueue c}"
  by (cases e) (auto simp: updateResponsesWithDelay_other delete_keys simp flip: set_map)

lemma performAll_keys_eq:
  "fst ` set (processingQueue (performAll cap now es s))
     = fst ` set (processingQueue s) - {c. DeleteFromQueue c \<in> set es}"
proof (induction es arbitrary: s)
  case Nil
  show ?case by simp
next
  case (Cons e es)
  have "fst ` set (processingQueue (performAll cap now (e # es) s))
          = fst ` set (processingQueue (perform cap now e s)) - {c. DeleteFromQueue c \<in> set es}"
    using Cons.IH[of "perform cap now e s"] by (simp del: perform.simps)
  also have "\<dots> = (fst ` set (processingQueue s) - {c. e = DeleteFromQueue c})
                    - {c. DeleteFromQueue c \<in> set es}"
    by (simp only: perform_keys_eq)
  also have "\<dots> = fst ` set (processingQueue s) - {c. DeleteFromQueue c \<in> set (e # es)}"
    by auto
  finally show ?case .
qed

lemma sync_no_delete:
  "DeleteFromQueue k \<notin> set (processAudioChunk_sync c now)"
  "DeleteFromQueue k \<notin> set (processAudioChunk_sync_basic c now)"
  by (simp_all add: processAudioChunk_sync_def processAudioChunk_sync_basic_def)

lemma fresh_chunkId:
  assumes "chunkIds s" and "c \<in> set (recorders s) \<union> set (inFlight s)"
  shows "generateChunkId now (chunkCounter s + 1) \<noteq> c"
proof
  assume e: "generateChunkId now (chunkCounter s + 1) = c"
  from assms obtain n k where c: "c = generateChunkId n k" "0 \<le> k" "k \<le> chunkCounter s"
    unfolding chunkIds_def by blast
  from assms(1) have "0 \<le> chunkCounter s + 1" unfolding chunkIds_def by simp
  from generateChunkId_inj[OF this c(2)] e c(1) have "chunkCounter s + 1 = k" by simp
  with c(3) show False by simp
qed

lemma newRecorder_ids:
  assumes "chunkIds s"
  shows "chunkIds (s\<lparr>chunkCounter := chunkCounter s + 1,
            recorders := recorders s @ [generateChunkId now (chunkCounter s + 1)]\<rparr>)"
proof -
  let ?g = "generateChunkId now (chunkCounter s + 1)"
  from fresh_chunkId[OF assms, of _ now] have fresh: "?g \<notin> set (recorders s) \<union> set (inFlight s)"
    by blast
  from assms have old: "\<forall>c \<in> set (recorders s) \<union> set (inFlight s).
           \<exists>n k. c = generateChunkId n k \<and> 0 \<le> k \<and> k \<le> chunkCounter s + 1"
    unfolding chunkIds_def by fastforce
  from assms have c0: "0 \<le> chunkCounter s" unfolding chunkIds_def by simp
  then have new: "\<exists>n k. ?g = generateChunkId n k \<and> 0 \<le> k \<and> k \<le> chunkCounter s + 1"
    by (intro exI[of _ now] exI[of _ "chunkCounter s + 1"]) simp
  from assms have d: "distinct (recorders s @ inFlight s)"
    and q: "set (inFlight s) \<subseteq> fst ` set (processingQueue s)"
    unfolding chunkIds_def by simp_all
  show ?thesis
    unfolding chunkIds_def using c0 old new fresh d q by auto
qed

lemma recordChunk_ids: "chunkIds s \<Longrightarrow> chunkIds (recordChunk cap now s)"
  using newRecorder_ids[of s now] by (simp add: recordChunk_def Let_def)

lemma recordChunk_basic_ids: "chunkIds s \<Longrightarrow> chunkIds (recordChunk_basic now s)"
  using newRecorder_ids[of s now] by (simp add: recordChunk_basic_def Let_def)

lemma admitted_ids:
  assumes "chunkIds s" and "c \<in> set (recorders s)"
    and "chunkCounter s' = chunkCounter s" and "recorders s' = remove1 c (recorders s)"
    and "inFlight s' = inFlight s @ [c]"
    and "fst ` set (processingQueue s') = insert c (fst ` set (processingQueue s))"
  shows "chunkIds s'"
proof -
  from assms(1) have d: "distinct (recorders s @ inFlight s)" unfolding chunkIds_def by simp
  with assms(2) have "c \<notin> set (inFlight s)" "c \<notin> set (remove1 c (recorders s))" by auto
  with d have "distinct (remove1 c (recorders s) @ inFlight s @ [c])"
    by (auto dest: notin_set_remove1)
  moreover have "set (remove1 c (recorders s)) \<subseteq> set (recorders s)" by (rule set_remove1_subset)
  ultimately show ?thesis
    using assms unfolding chunkIds_def by auto
qed

lemma dropped_ids:
  assumes "chunkIds s"
  shows "chunkIds (s\<lparr>recorders := remove1 c (recorders s)\<rparr>)"
proof -
  have "set (remove1 c (recorders s)) \<subseteq> set (recorders s)" by (rule set_remove1_subset)
  moreover from assms have "distinct (remove1 c (recorders s) @ inFlight s)"
    unfolding chunkIds_def by (auto dest: notin_set_remove1)
  ultimately show ?thesis using assms unfolding chunkIds_def by auto
qed

lemma onstop_ids:
  assumes "chunkIds s" and "c \<in> set (recorders s)"
  shows "chunkIds (onstop cap now c sizes (s\<lparr>recorders := remove1 c (recorders s)\<rparr>))"
proof (cases "length (filter (\<lambda>sz. sz > 0) sizes) > 0
              \<and> shouldProcess cap (sum_list (filter (\<lambda>sz. sz > 0) sizes))
                   (s\<lparr>recorders := remove1 c (recorders s)\<rparr>)")
  case False
  with dropped_ids[OF assms(1), of c] show ?thesis by (auto simp: onstop_def Let_def)
next
  case True
  then have e: "\<not> earlyReturn (sum_list (filter (\<lambda>sz. sz > 0) sizes))"
    by (simp add: shouldProcess_def earlyReturn_def)
  show ?thesis
    by (rule admitted_ids[OF assms])
       (use True e in \<open>simp_all add: onstop_def Let_def callProcessAudioChunk_def dom_update
          performAll_ids_fields performAll_keys_eq sync_no_delete\<close>)
qed

lemma onstop_basic_ids:
  assumes "chunkIds s" and "c \<in> set (recorders s)"
  shows "chunkIds (onstop_basic cap now c sizes (s\<lparr>recorders := remove1 c (recorders s)\<rparr>))"
proof (cases "length (filter (\<lambda>sz. sz > 0) sizes) > 0
              \<and> shouldProcess_basic cap (sum_list (filter (\<lambda>sz. sz > 0) sizes))
                   (s\<lparr>recorders := remove1 c (recorders s)\<rparr>)")
  case False
  with dropped_ids[OF assms(1), of c] show ?thesis by (auto simp: onstop_basic_def Let_def)
next
  case True
  show ?thesis
    by (rule admitted_ids[OF assms])
       (use True in \<open>simp_all add: onstop_basic_def Let_def callProcessAudioChunk_basic_def
          dom_update performAll_ids_fields performAll_keys_eq sync_no_delete\<close>)
qed

lemma settled_ids:
  assumes "chunkIds s" and "chunkCounter s' = chunkCounter s" and "recorders s' = recorders s"
    and "inFlight s' = remove1 c (inFlight s)"
    and "fst ` set (processingQueue s') = fst ` set (processingQueue s) - {c}"
  shows "chunkIds s'"
proof -
  from assms(1) have d: "distinct (recorders s @ inFlight s)" unfolding chunkIds_def by simp
  then have d': "distinct (recorders s @ remove1 c (inFlight s))"
    by (auto dest: notin_set_remove1)
  from d have "c \<notin> set (remove1 c (inFlight s))" by simp
  moreover have "set (remove1 c (inFlight s)) \<subseteq> set (inFlight s)" by (rule set_remove1_subset)
  ultimately show ?thesis
    using assms d' unfolding chunkIds_def by auto
qed

lemma resolvePromise_ids_fields:
  "chunkCounter (resolvePromise c s) = chunkCounter s"
  "recorders (resolvePromise c s) = recorders s"
  by (simp_all add: resolvePromise_def Let_def)

lemma settle_ids: "chunkIds s \<Longrightarrow> chunkIds (settle cap now c out s)"
proof (cases "c \<in> set (inFlight s)")
  case False
  assume "chunkIds s"
  with False show ?thesis by (simp add: settle_def)
next
  case True
  assume a: "chunkIds s"
  have k: "{k. DeleteFromQueue k \<in> set (processAudioChunk_settle cap c now out)} = {c}"
    using try_no_delete[of _ cap c now out]
    by (auto simp: processAudioChunk_settle_def processAudioChunk_finally_def)
  show ?thesis
    by (rule settled_ids[OF a, of _ c])
       (use True k in \<open>simp_all add: settle_def resolvePromise_ids_fields resolvePromise_fields
          resolvePromise_other performAll_ids_fields performAll_inFlight performAll_keys_eq\<close>)
qed

lemma settle_basic_ids: "chunkIds s \<Longrightarrow> chunkIds (settle_basic cap now c out s)"
proof (cases "c \<in> set (inFlight s) \<and> out \<noteq> ReadFailed")
  case False
  assume "chunkIds s"
  with False show ?thesis
    by (auto simp: settle_basic_def processAudioChunk_settle_basic_def)
next
  case True
  assume a: "chunkIds s"
  let ?es = "processAudioChunk_try_basic cap c now out @ processAudioChunk_finally c"
  have k: "{k. DeleteFromQueue k \<in> set ?es} = {c}"
    using try_basic_no_delete[of _ cap c now out]
    by (auto simp: processAudioChunk_finally_def)
  show ?thesis
    by (rule settled_ids[OF a, of _ c])
       (use True k in \<open>simp_all add: settle_basic_def processAudioChunk_settle_basic_def
          resolvePromise_ids_fields resolvePromise_fields
          resolvePromise_other performAll_ids_fields performAll_inFlight performAll_keys_eq\<close>)
qed

lemma delayedUpdate_ids_fields:
  "chunkCounter (fireFlushTimer now s) = chunkCounter s"
  by (simp add: fireFlushTimer_def delayedUpdate_def split: option.splits)

lemma awaitQueue_ids_fields:
  "chunkCounter (awaitQueue s) = chunkCounter s"
  by (simp add: awaitQueue_def Let_def)

lemma handle_ids:
  assumes "chunkIds s"
  shows "chunkIds (handle v cap now ev s)"
proof (cases ev)
  case StartListening
  have b: "chunkIds (startListening s)"
    by (rule chunkIds_other_fields[OF assms]) (simp_all add: startListening_def)
  have "chunkIds (startContinuousRecording_basic now (startListening s))"
  proof (cases "\<not> stream (startListening s) \<or> continuousRecording (startListening s)")
    case True
    with b show ?thesis by (simp add: startContinuousRecording_basic_def)
  next
    case False
    have "chunkIds ((startListening s)\<lparr>continuousRecording := True\<rparr>)"
      by (rule chunkIds_other_fields[OF b]) simp_all
    then have "chunkIds (recordChunk_basic now ((startListening s)\<lparr>continuousRecording := True\<rparr>))"
      by (rule recordChunk_basic_ids)
    then have "chunkIds ((recordChunk_basic now ((startListening s)\<lparr>continuousRecording := True\<rparr>))
                 \<lparr>recordingInterval := True\<rparr>)"
      by (rule chunkIds_other_fields) simp_all
    with False show ?thesis by (simp add: startContinuousRecording_basic_def)
  qed
  with StartListening b show ?thesis by (cases v) (simp_all add: startListening_basic_def)
next
  case StartContinuousRecording
  have e: "chunkIds (startContinuousRecording s)"
    by (rule chunkIds_other_fields[OF assms]) (simp_all add: startContinuousRecording_def)
  have "chunkIds (startContinuousRecording_basic now s)"
  proof (cases "\<not> stream s \<or> continuousRecording s")
    case True
    with assms show ?thesis by (simp add: startContinuousRecording_basic_def)
  next
    case False
    have "chunkIds (s\<lparr>continuousRecording := True\<rparr>)"
      by (rule chunkIds_other_fields[OF assms]) simp_all
    then have "chunkIds (recordChunk_basic now (s\<lparr>continuousRecording := True\<rparr>))"
      by (rule recordChunk_basic_ids)
    then have "chunkIds ((recordChunk_basic now (s\<lparr>continuousRecording := True\<rparr>))
                 \<lparr>recordingInterval := True\<rparr>)"
      by (rule chunkIds_other_fields) simp_all
    with False show ?thesis by (simp add: startContinuousRecording_basic_def)
  qed
  with StartContinuousRecording e show ?thesis by (cases v) simp_all
next
  case RecordChunk
  with recordChunk_ids[OF assms] recordChunk_basic_ids[OF assms]
  show ?thesis by (cases v) simp_all
next
  case (OnStop c sizes)
  show ?thesis
  proof (cases "c \<in> set (recorders s)")
    case False
    with OnStop assms show ?thesis by simp
  next
    case True
    with OnStop onstop_ids[OF assms True] onstop_basic_ids[OF assms True]
    show ?thesis by (cases v) (simp_all add: Let_def)
  qed
next
  case (Settle c out)
  with settle_ids[OF assms] settle_basic_ids[OF assms]
  show ?thesis by (cases v) simp_all
next
  case FlushTimer
  show ?thesis
    by (rule chunkIds_other_fields[OF assms])
       (simp_all add: FlushTimer fireFlushTimer_other delayedUpdate_ids_fields)
next
  case StopListening
  show ?thesis
    by (rule chunkIds_other_fields[OF assms]; cases v;
        simp add: StopListening stopListening_def stopListening_basic_def
          stopContinuousRecording_def stopContinuousRecording_basic_def
          awaitQueue_other awaitQueue_ids_fields)
next
  case ClearResponses
  show ?thesis
    by (rule chunkIds_other_fields[OF assms]; cases v;
        simp add: ClearResponses clearResponses_def)
qed

lemma run_ids: "chunkIds s \<Longrightarrow> chunkIds (run v cap s evs)"
proof (induction evs arbitrary: s)
  case Nil
  then show ?case by simp
next
  case (Cons ev evs)
  have "chunkIds (s\<lparr>clock := fst ev\<rparr>)"
    by (rule chunkIds_other_fields[OF Cons.prems]) simp_all
  then have "chunkIds (step v cap ev s)"
    using Cons.prems by (simp add: step_def handle_ids)
  then show ?case using Cons.IH by simp
qed

lemma init_ids: "chunkIds init"
  by (simp add: chunkIds_def init_def)

text \<open>No entry without a call in flight: every key of the queue belongs to a call whose
  promise is pending.\<close>

lemma performAll_keys:
  "fst ` set (processingQueue (performAll cap now es s)) \<subseteq> fst ` set (processingQueue s)"
proof (induction es arbitrary: s)
  case Nil
  show ?case by simp
next
  case (Cons e es)
  from Cons.IH[of "perform cap now e s"] perform_keys[of cap now e s]
  show ?case by (simp del: perform.simps)
qed

lemma onstop_no_leak:
  assumes "fst ` set (processingQueue s) \<subseteq> set (inFlight s)"
  shows "fst ` set (processingQueue (onstop cap now c sizes s))
           \<subseteq> set (inFlight (onstop cap now c sizes s))"
proof (cases "length (filter (\<lambda>sz. sz > 0) sizes) > 0
              \<and> shouldProcess cap (sum_list (filter (\<lambda>sz. sz > 0) sizes)) s")
  case False
  with assms show ?thesis by (auto simp: onstop_def Let_def)
next
  case True
  then have e: "\<not> earlyReturn (sum_list (filter (\<lambda>sz. sz > 0) sizes))"
    by (simp add: shouldProcess_def earlyReturn_def)
  from performAll_keys[of cap now "processAudioChunk_sync c now" s] assms
  have "fst ` set (processingQueue (performAll cap now (processAudioChunk_sync c now) s))
          \<subseteq> set (inFlight s)" by blast
  with True e show ?thesis
    by (auto simp: onstop_def Let_def callProcessAudioChunk_def dom_update performAll_inFlight)
qed

lemma onstop_basic_no_leak:
  assumes "fst ` set (processingQueue s) \<subseteq> set (inFlight s)"
  shows "fst ` set (processingQueue (onstop_basic cap now c sizes s))
           \<subseteq> set (inFlight (onstop_basic cap now c sizes s))"
proof -
  from performAll_keys[of cap now "processAudioChunk_sync_basic c now" s] assms
  have "fst ` set (processingQueue (performAll cap now (processAudioChunk_sync_basic c now) s))
          \<subseteq> set (inFlight s)" by blast
  with assms show ?thesis
    by (auto simp: onstop_basic_def Let_def callProcessAudioChunk_basic_def dom_update
        performAll_inFlight)
qed

lemma settled_no_leak:
  assumes "fst ` set (processingQueue s) \<subseteq> set (inFlight s)"
  shows "fst ` set (processingQueue
           (resolvePromise c (performAll cap now (es @ processAudioChunk_finally c) s)))
         \<subseteq> set (inFlight
           (resolvePromise c (performAll cap now (es @ processAudioChunk_finally c) s)))"
proof
  fix k
  let ?s' = "performAll cap now (es @ processAudioChunk_finally c) s"
  assume "k \<in> fst ` set (processingQueue (resolvePromise c ?s'))"
  then have k: "k \<in> fst ` set (processingQueue ?s')" by (simp add: resolvePromise_other)
  with performAll_finally_releases[of c cap now es s] have "k \<noteq> c" by blast
  moreover from k performAll_keys[of cap now "es @ processAudioChunk_finally c" s] assms
  have "k \<in> set (inFlight s)" by blast
  ultimately show "k \<in> set (inFlight (resolvePromise c ?s'))"
    by (simp add: resolvePromise_fields performAll_inFlight)
qed

lemma handle_no_leak:
  assumes "fst ` set (processingQueue s) \<subseteq> set (inFlight s)"
  shows "fst ` set (processingQueue (handle v cap now ev s))
           \<subseteq> set (inFlight (handle v cap now ev s))"
proof (cases ev)
  case StartListening
  with assms show ?thesis
    by (cases v) (simp_all add: startListening_def startListening_basic_def
        startContinuousRecording_basic_def recordChunk_basic_def Let_def)
next
  case StartContinuousRecording
  with assms show ?thesis
    by (cases v) (simp_all add: startContinuousRecording_def
        startContinuousRecording_basic_def recordChunk_basic_def Let_def)
next
  case RecordChunk
  with assms show ?thesis
    by (cases v) (simp_all add: recordChunk_def recordChunk_basic_def Let_def)
next
  case (OnStop c sizes)
  let ?s = "s\<lparr>recorders := remove1 c (recorders s)\<rparr>"
  have a: "fst ` set (processingQueue ?s) \<subseteq> set (inFlight ?s)" using assms by simp
  from onstop_no_leak[OF a] onstop_basic_no_leak[OF a] OnStop assms
  show ?thesis by (cases v) (simp_all add: Let_def)
next
  case (Settle c out)
  have e: "fst ` set (processingQueue (settle cap now c out s))
             \<subseteq> set (inFlight (settle cap now c out s))"
    using settled_no_leak[OF assms, of c cap now "processAudioChunk_try cap c now out"] assms
    by (simp add: settle_def processAudioChunk_settle_def)
  have b: "fst ` set (processingQueue (settle_basic cap now c out s))
             \<subseteq> set (inFlight (settle_basic cap now c out s))"
    using settled_no_leak[OF assms, of c cap now "processAudioChunk_try_basic cap c now out"] assms
    by (simp add: settle_basic_def processAudioChunk_settle_basic_def)
  from Settle e b show ?thesis by (cases v) simp_all
next
  case FlushTimer
  with assms show ?thesis by (simp add: fireFlushTimer_other)
next
  case StopListening
  with assms show ?thesis
    by (cases v) (simp_all add: stopListening_def stopListening_basic_def
        stopContinuousRecording_def stopContinuousRecording_basic_def awaitQueue_other)
next
  case ClearResponses
  with assms show ?thesis by (cases v) (simp_all add: clearResponses_def)
qed

lemma run_no_leak:
  "fst ` set (processingQueue s) \<subseteq> set (inFlight s) \<Longrightarrow>
   fst ` set (processingQueue (run v cap s evs)) \<subseteq> set (inFlight (run v cap s evs))"
  by (induction evs arbitrary: s) (simp_all add: step_def handle_no_leak)

text \<open>
  What holds of the release. For a blob above 8000 bytes the effects of the enhanced call
  hold \<open>delete processingQueueRef.current[chunkId]\<close> once, and no other delete; so do
  the effects of the basic call on every outcome that settles it. The admitting \<open>onstop\<close>
  leaves the entry registered and the call in flight, and the settlement of a call in
  flight removes the entry and takes the call out of flight, so it cannot settle twice.
  Under one closure, the entries of the queue are the calls in flight, each of them once.
\<close>

lemma release_on_settlement:
  "(audioBlob > 8000 \<longrightarrow>
      count_list (processAudioChunk cap audioBlob chunkId now out now') (DeleteFromQueue chunkId) = 1
      \<and> (\<forall>c. c \<noteq> chunkId \<longrightarrow>
            DeleteFromQueue c \<notin> set (processAudioChunk cap audioBlob chunkId now out now')))
   \<and> (out \<noteq> ReadFailed \<longrightarrow>
        (\<exists>effects. processAudioChunk_basic cap chunkId now out now' = Some effects
           \<and> count_list effects (DeleteFromQueue chunkId) = 1
           \<and> (\<forall>c. c \<noteq> chunkId \<longrightarrow> DeleteFromQueue c \<notin> set effects)))
   \<and> (length (filter (\<lambda>sz. sz > 0) sizes) > 0
        \<and> shouldProcess cap (sum_list (filter (\<lambda>sz. sz > 0) sizes)) s \<longrightarrow>
        chunkId \<in> fst ` set (processingQueue (onstop cap now chunkId sizes s))
        \<and> chunkId \<in> set (inFlight (onstop cap now chunkId sizes s)))
   \<and> (length (filter (\<lambda>sz. sz > 0) sizes) > 0
        \<and> shouldProcess_basic cap (sum_list (filter (\<lambda>sz. sz > 0) sizes)) s \<longrightarrow>
        chunkId \<in> fst ` set (processingQueue (onstop_basic cap now chunkId sizes s))
        \<and> chunkId \<in> set (inFlight (onstop_basic cap now chunkId sizes s)))
   \<and> (chunkId \<in> set (inFlight t) \<and> (v = Basic \<longrightarrow> out \<noteq> ReadFailed) \<longrightarrow>
        chunkId \<notin> fst ` set (processingQueue (handle v cap now' (Settle chunkId out) t))
        \<and> length (inFlight (handle v cap now' (Settle chunkId out) t)) + 1 = length (inFlight t))
   \<and> (shouldProcess cap audioBlob s \<longrightarrow> \<not> earlyReturn audioBlob)
   \<and> fst ` set (processingQueue (run v cap init evs)) = set (inFlight (run v cap init evs))
   \<and> distinct (inFlight (run v cap init evs))"
proof -
  have "fst ` set (processingQueue init) \<subseteq> set (inFlight init)" by (simp add: init_def)
  then have "fst ` set (processingQueue (run v cap init evs))
               \<subseteq> set (inFlight (run v cap init evs))"
    by (rule run_no_leak)
  moreover have ids: "chunkIds (run v cap init evs)"
    using init_ids by (rule run_ids)
  ultimately have leak: "fst ` set (processingQueue (run v cap init evs))
                           = set (inFlight (run v cap init evs))
                         \<and> distinct (inFlight (run v cap init evs))"
    unfolding chunkIds_def by auto
  have gate: "shouldProcess cap audioBlob s \<longrightarrow> \<not> earlyReturn audioBlob"
    by (simp add: shouldProcess_def earlyReturn_def)
  have enh: "count_list (processAudioChunk cap audioBlob chunkId now out now') (DeleteFromQueue chunkId) = 1
      \<and> (\<forall>c. c \<noteq> chunkId \<longrightarrow>
            DeleteFromQueue c \<notin> set (processAudioChunk cap audioBlob chunkId now out now'))"
    if "audioBlob > 8000"
  proof -
    from that have e: "\<not> earlyReturn audioBlob" by (simp add: earlyReturn_def)
    have "count_list (processAudioChunk cap audioBlob chunkId now out now') (DeleteFromQueue c)
            = (if c = chunkId then 1 else 0)" for c
      using e by (simp add: processAudioChunk_def processAudioChunk_sync_def count_settle)
    then show ?thesis by (simp add: count_list_0_iff[symmetric])
  qed
  have bas: "\<exists>effects. processAudioChunk_basic cap chunkId now out now' = Some effects
           \<and> count_list effects (DeleteFromQueue chunkId) = 1
           \<and> (\<forall>c. c \<noteq> chunkId \<longrightarrow> DeleteFromQueue c \<notin> set effects)"
    if "out \<noteq> ReadFailed"
  proof -
    from that obtain rest where r: "processAudioChunk_settle_basic cap chunkId now' out = Some rest"
      by (simp add: processAudioChunk_settle_basic_def)
    define effects where "effects = processAudioChunk_sync_basic chunkId now @ rest"
    have "count_list effects (DeleteFromQueue c) = (if c = chunkId then 1 else 0)" for c
      using count_settle_basic[OF r, of c]
      by (simp add: effects_def processAudioChunk_sync_basic_def)
    then have "count_list effects (DeleteFromQueue chunkId) = 1
      \<and> (\<forall>c. c \<noteq> chunkId \<longrightarrow> DeleteFromQueue c \<notin> set effects)"
      by (simp add: count_list_0_iff[symmetric])
    with r show ?thesis by (simp add: processAudioChunk_basic_def effects_def)
  qed
  have rel: "chunkId \<notin> fst ` set (processingQueue (handle v cap now' (Settle chunkId out) t))
        \<and> length (inFlight (handle v cap now' (Settle chunkId out) t)) + 1 = length (inFlight t)"
    if f: "chunkId \<in> set (inFlight t)" and o: "v = Basic \<longrightarrow> out \<noteq> ReadFailed"
  proof (cases v)
    case Enhanced
    have "length (inFlight (settle cap now' chunkId out t)) + 1 = length (inFlight t)"
      using f by (simp add: settle_def resolvePromise_def Let_def performAll_inFlight length_remove1)
         (cases "inFlight t", simp_all)
    with Enhanced settle_releases[OF f, of cap now' out] show ?thesis by simp
  next
    case Basic
    with o have o': "out \<noteq> ReadFailed" by simp
    have "length (inFlight (settle_basic cap now' chunkId out t)) + 1 = length (inFlight t)"
      using f o' by (simp add: settle_basic_def processAudioChunk_settle_basic_def
          resolvePromise_def Let_def performAll_inFlight length_remove1)
         (cases "inFlight t", simp_all)
    with Basic settle_basic_releases[OF f o', of cap now'] show ?thesis by simp
  qed
  from enh bas rel gate leak onstop_registers[of sizes cap s chunkId now]
    onstop_basic_registers[of sizes cap s chunkId now]
  show ?thesis by blast
qed

text \<open>A handler removes no entry of the queue but the one of the call that it settles.\<close>

lemma handle_keeps_key:
  assumes "k \<in> fst ` set (processingQueue s)" and "\<forall>out. ev \<noteq> Settle k out"
  shows "k \<in> fst ` set (processingQueue (handle v c now ev s))"
proof (cases ev)
  case StartListening
  with assms show ?thesis
    by (cases v) (simp_all add: startListening_def startListening_basic_def
        startContinuousRecording_basic_def recordChunk_basic_def Let_def)
next
  case StartContinuousRecording
  with assms show ?thesis
    by (cases v) (simp_all add: startContinuousRecording_def
        startContinuousRecording_basic_def recordChunk_basic_def Let_def)
next
  case RecordChunk
  with assms show ?thesis
    by (cases v) (simp_all add: recordChunk_def recordChunk_basic_def Let_def)
next
  case (OnStop chunkId sizes)
  let ?s = "s\<lparr>recorders := remove1 chunkId (recorders s)\<rparr>"
  have e: "k \<in> fst ` set (processingQueue (onstop c now chunkId sizes ?s))"
    using assms(1) performAll_keys_eq[of c now "processAudioChunk_sync chunkId now" ?s]
      sync_no_delete(1)[of _ chunkId now]
    by (auto simp: onstop_def callProcessAudioChunk_def Let_def dom_update)
  have b: "k \<in> fst ` set (processingQueue (onstop_basic c now chunkId sizes ?s))"
    using assms(1) performAll_keys_eq[of c now "processAudioChunk_sync_basic chunkId now" ?s]
      sync_no_delete(2)[of _ chunkId now]
    by (auto simp: onstop_basic_def callProcessAudioChunk_basic_def Let_def dom_update)
  from OnStop e b assms(1) show ?thesis by (cases v) (simp_all add: Let_def)
next
  case (Settle chunkId out)
  with assms(2) have ne: "k \<noteq> chunkId" by blast
  have d: "DeleteFromQueue k \<notin> set (processAudioChunk_settle c chunkId now out)"
    using count_settle[of c chunkId now out k] ne by (simp add: count_list_0_iff)
  have e: "k \<in> fst ` set (processingQueue (settle c now chunkId out s))"
    using assms(1) d performAll_keys_eq[of c now "processAudioChunk_settle c chunkId now out" s]
    by (simp add: settle_def resolvePromise_other)
  have b: "k \<in> fst ` set (processingQueue (settle_basic c now chunkId out s))"
  proof (cases "processAudioChunk_settle_basic c chunkId now out")
    case None
    with assms(1) show ?thesis by (simp add: settle_basic_def)
  next
    case (Some effects)
    from count_settle_basic[OF Some, of k] ne have "DeleteFromQueue k \<notin> set effects"
      by (simp add: count_list_0_iff)
    with assms(1) Some performAll_keys_eq[of c now effects s] show ?thesis
      by (simp add: settle_basic_def resolvePromise_other)
  qed
  from Settle e b show ?thesis by (cases v) simp_all
next
  case FlushTimer
  with assms show ?thesis by (simp add: fireFlushTimer_other)
next
  case StopListening
  with assms show ?thesis
    by (cases v) (simp_all add: stopListening_def stopListening_basic_def
        stopContinuousRecording_def stopContinuousRecording_basic_def awaitQueue_other)
next
  case ClearResponses
  with assms show ?thesis by (cases v) (simp_all add: clearResponses_def)
qed

text \<open>A call whose read has failed is never settled, and its entry stays.\<close>

lemma dispatch_unread:
  assumes "k \<in> set (unread a)" and "k \<in> fst ` set (processingQueue (cstate a))"
  shows "k \<in> set (unread (dispatch v now ev a))
         \<and> k \<in> fst ` set (processingQueue (cstate (dispatch v now ev a)))"
proof (cases ev)
  case MicrophoneGranted
  with assms handle_keeps_key[of k "cstate a" StartListening v "hd (clicks a)" now]
  show ?thesis
    by (cases "clicks a"; cases v) (simp_all add: inClosure_fields del: handle.simps)
next
  case StartTimer
  with assms handle_keeps_key[of k "cstate a" StartContinuousRecording v "hd (startTimers a)" now]
  show ?thesis
    by (cases "startTimers a"; cases v) (simp_all add: runHandler_fields del: handle.simps)
next
  case FirstChunkTimer
  with assms handle_keeps_key[of k "cstate a" RecordChunk v "hd (chunkTimers a)" now]
  show ?thesis
    by (cases "chunkTimers a") (simp_all add: inClosure_fields del: handle.simps)
next
  case IntervalTick
  with assms handle_keeps_key[of k "cstate a" RecordChunk v "intervalClosure a" now]
  show ?thesis by (simp add: inClosure_fields del: handle.simps)
next
  case (RecorderStops chunkId sizes)
  show ?thesis
  proof (cases "map_of (closureOf a) chunkId")
    case None
    with assms RecorderStops show ?thesis by simp
  next
    case (Some c)
    with assms RecorderStops handle_keeps_key[of k "cstate a" "OnStop chunkId sizes" v c now]
    show ?thesis by (simp add: runHandler_fields del: handle.simps)
  qed
next
  case (CallSettles chunkId out)
  show ?thesis
  proof (cases "map_of (closureOf a) chunkId")
    case None
    with assms CallSettles show ?thesis by simp
  next
    case (Some c)
    show ?thesis
    proof (cases "chunkId = k")
      case True
      with assms CallSettles Some show ?thesis by simp
    next
      case False
      with assms CallSettles Some handle_keeps_key[of k "cstate a" "Settle chunkId out" v c now]
      show ?thesis by (simp add: runHandler_fields del: handle.simps)
    qed
  qed
next
  case FlushTimerFires
  with assms handle_keeps_key[of k "cstate a" FlushTimer v "render a" now]
  show ?thesis by (simp add: runHandler_fields del: handle.simps)
next
  case ClickStop
  with assms handle_keeps_key[of k "cstate a" StopListening v "render a" now]
  show ?thesis by (simp add: runHandler_fields del: handle.simps)
next
  case ClickClear
  with assms handle_keeps_key[of k "cstate a" ClearResponses v "render a" now]
  show ?thesis by (cases v) (simp_all add: runHandler_fields del: handle.simps)
qed (use assms in simp_all)

lemma runApp_unread:
  "k \<in> set (unread a) \<Longrightarrow> k \<in> fst ` set (processingQueue (cstate a)) \<Longrightarrow>
   k \<in> set (unread (runApp v a evs))
   \<and> k \<in> fst ` set (processingQueue (cstate (runApp v a evs)))"
proof (induction evs arbitrary: a)
  case Nil
  then show ?case by simp
next
  case (Cons ev evs)
  let ?a = "a\<lparr>cstate := (cstate a)\<lparr>clock := fst ev\<rparr>\<rparr>"
  from Cons.prems have "k \<in> set (unread ?a)" "k \<in> fst ` set (processingQueue (cstate ?a))"
    by simp_all
  from dispatch_unread[OF this, of v "fst ev" "snd ev"] Cons.prems
  have "k \<in> set (unread (stepApp v ev a))
        \<and> k \<in> fst ` set (processingQueue (cstate (stepApp v ev a)))"
    by (simp add: stepApp_def)
  with Cons.IH show ?case by simp
qed

text \<open>
  C2 in the basic component, for a blob whose read fails. The first chunk of the session
  is admitted at 1002300; the read of its blob fails at 1002400. The basic call has no
  settlement for this outcome, where the enhanced call rejects on \<open>reader.onerror\<close>, runs
  its \<open>catch\<close> and \<open>finally\<close> blocks and deletes the entry once. The entry, the
  placeholder and the count of active calls stay as they are, and whatever happens
  afterwards the entry is still in the queue: the slot is never released.
\<close>

theorem failed_read_keeps_entry:
  "inFlight (cstate (runApp Basic (mount Basic ''python'') basicFirstAdmitted)) = [''chunk_1000300_1'']
   \<and> processAudioChunk_basic (initialRender Basic ''python'') ''chunk_1000300_1'' 1002300
        ReadFailed 1002400 = None
   \<and> count_list (processAudioChunk (initialRender Enhanced ''python'') 32000 ''chunk_1000300_1''
        1002300 ReadFailed 1002400) (DeleteFromQueue ''chunk_1000300_1'') = 1
   \<and> unread (runApp Basic (mount Basic ''python'') failedRead) = [''chunk_1000300_1'']
   \<and> processingQueue (cstate (runApp Basic (mount Basic ''python'') failedRead))
       = [(''chunk_1000300_1'', 32000, 1002300)]
   \<and> activeProcessingCount (cstate (runApp Basic (mount Basic ''python'') failedRead)) = 1
   \<and> responses (cstate (runApp Basic (mount Basic ''python'') failedRead))
       = [placeholderResponse_basic ''chunk_1000300_1'' 1002300]
   \<and> ''chunk_1000300_1'' \<in> fst ` set (processingQueue (cstate
         (runApp Basic (runApp Basic (mount Basic ''python'') failedRead) evs)))"
proof -
  have closed: "inFlight (cstate (runApp Basic (mount Basic ''python'') basicFirstAdmitted)) = [''chunk_1000300_1'']
   \<and> processAudioChunk_basic (initialRender Basic ''python'') ''chunk_1000300_1'' 1002300
        ReadFailed 1002400 = None
   \<and> count_list (processAudioChunk (initialRender Enhanced ''python'') 32000 ''chunk_1000300_1''
        1002300 ReadFailed 1002400) (DeleteFromQueue ''chunk_1000300_1'') = 1
   \<and> unread (runApp Basic (mount Basic ''python'') failedRead) = [''chunk_1000300_1'']
   \<and> processingQueue (cstate (runApp Basic (mount Basic ''python'') failedRead))
       = [(''chunk_1000300_1'', 32000, 1002300)]
   \<and> activeProcessingCount (cstate (runApp Basic (mount Basic ''python'') failedRead)) = 1
   \<and> responses (cstate (runApp Basic (mount Basic ''python'') failedRead))
       = [placeholderResponse_basic ''chunk_1000300_1'' 1002300]"
    by code_simp
  then have "''chunk_1000300_1'' \<in> set (unread (runApp Basic (mount Basic ''python'') failedRead))"
    and "''chunk_1000300_1'' \<in> fst ` set (processingQueue (cstate
          (runApp Basic (mount Basic ''python'') failedRead)))"
    by simp_all
  from runApp_unread[OF this, of Basic evs] closed show ?thesis by blast
qed

section \<open>The sentinel\<close>

lemma settle_content_rejected:
  assumes "processAudioChunk_try cap chunkId now (Content content) = [RemoveResponse chunkId]"
    and "chunkId \<in> set (inFlight s)"
  shows "responses (settle cap now chunkId (Content content) s)
           = filter (\<lambda>r. id' r \<noteq> chunkId) (responses s)
         \<and> pendingResponses (settle cap now chunkId (Content content) s) = pendingResponses s
         \<and> currentTranscription (settle cap now chunkId (Content content) s) = currentTranscription s"
  using assms
  by (simp add: settle_def processAudioChunk_settle_def processAudioChunk_finally_def
      resolvePromise_other)

lemma settle_basic_content_rejected:
  assumes "processAudioChunk_try_basic cap chunkId now (Content content) = [RemoveResponse chunkId]"
    and "chunkId \<in> set (inFlight s)"
  shows "responses (settle_basic cap now chunkId (Content content) s)
           = filter (\<lambda>r. id' r \<noteq> chunkId) (responses s)
         \<and> pendingResponses (settle_basic cap now chunkId (Content content) s) = pendingResponses s
         \<and> currentTranscription (settle_basic cap now chunkId (Content content) s)
             = currentTranscription s"
  using assms
  by (simp add: settle_basic_def processAudioChunk_settle_basic_def processAudioChunk_finally_def
      resolvePromise_other)

text \<open>
  A response text that contains \<open>UNCLEAR_AUDIO\<close> is rejected by both parsers, and the
  settlement of the call removes every record with the chunk's id from the visible list;
  the buffer of the presenter and the current transcription stay as they are.
\<close>

lemma sentinel_rejected_by_parsers:
  assumes "content = a @ ''UNCLEAR_AUDIO'' @ b"
  shows "parseResponse lang chunkId now content = Rejected
   \<and> parseResponse_basic chunkId now content = Rejected
   \<and> processAudioChunk_try cap chunkId now (Content content) = [RemoveResponse chunkId]
   \<and> processAudioChunk_try_basic cap chunkId now (Content content) = [RemoveResponse chunkId]
   \<and> (chunkId \<in> set (inFlight s) \<longrightarrow>
        responses (handle v cap now (Settle chunkId (Content content)) s)
          = filter (\<lambda>r. id' r \<noteq> chunkId) (responses s)
        \<and> (\<forall>r \<in> set (responses (handle v cap now (Settle chunkId (Content content)) s)).
              id' r \<noteq> chunkId \<and> r \<in> set (responses s))
        \<and> pendingResponses (handle v cap now (Settle chunkId (Content content)) s)
            = pendingResponses s
        \<and> currentTranscription (handle v cap now (Settle chunkId (Content content)) s)
            = currentTranscription s)"
proof -
  from assms have inc: "includes_str content ''UNCLEAR_AUDIO''"
    unfolding includes_str_iff by blast
  then have p: "parseResponse lang chunkId now content = Rejected" for lang
    by (simp add: parseResponse_def)
  from inc have pb: "parseResponse_basic chunkId now content = Rejected"
    by (simp add: parseResponse_basic_def)
  from p have t: "processAudioChunk_try cap chunkId now (Content content) = [RemoveResponse chunkId]"
    by (simp add: processAudioChunk_try_def)
  from pb have tb: "processAudioChunk_try_basic cap chunkId now (Content content) = [RemoveResponse chunkId]"
    by (simp add: processAudioChunk_try_basic_def)
  have h: "responses (handle v cap now (Settle chunkId (Content content)) s)
          = filter (\<lambda>r. id' r \<noteq> chunkId) (responses s)
        \<and> pendingResponses (handle v cap now (Settle chunkId (Content content)) s)
            = pendingResponses s
        \<and> currentTranscription (handle v cap now (Settle chunkId (Content content)) s)
            = currentTranscription s"
    if "chunkId \<in> set (inFlight s)"
    using settle_content_rejected[OF t that] settle_basic_content_rejected[OF tb that]
    by (cases v) simp_all
  from p pb t tb h show ?thesis by auto
qed


section \<open>Properties of the staggered presenter\<close>

text \<open>A timer is armed for the time left until \<open>responseUpdateDelay\<close> after the last
  flush: with a clock that does not run backwards, for more than 0 and at most
  \<open>responseUpdateDelay\<close> milliseconds.\<close>

lemma armed_delay_bounded:
  assumes "lastResponseTime s \<le> now"
    and "flushTimers (updateResponsesWithDelay cap now r s) \<noteq> flushTimers s"
  shows "\<exists>delay. flushTimers (updateResponsesWithDelay cap now r s) = flushTimers s @ [(now, delay)]
           \<and> 0 < delay \<and> delay \<le> responseUpdateDelay cap
           \<and> now + delay = lastResponseTime s + responseUpdateDelay cap"
  using assms by (auto simp: updateResponsesWithDelay_def Let_def split: if_splits)

text \<open>A call flushes at once only when at least \<open>responseUpdateDelay\<close> milliseconds
  have passed since the last flush.\<close>

lemma immediate_flush_spaced:
  assumes "flushTimes (updateResponsesWithDelay cap now r s) \<noteq> flushTimes s"
  shows "flushTimes (updateResponsesWithDelay cap now r s) = flushTimes s @ [now]
         \<and> now - lastResponseTime s \<ge> responseUpdateDelay cap"
  using assms by (auto simp: updateResponsesWithDelay_def Let_def split: if_splits)






section \<open>Stopping while calls are in flight\<close>

lemma perform_bookkeeping_fields:
  "inFlight (perform cap now e s) = inFlight s
   \<and> settled (perform cap now e s) = settled s
   \<and> stopWaits (perform cap now e s) = stopWaits s
   \<and> completedLogs (perform cap now e s) = completedLogs s"
  by (cases e) (simp_all add: updateResponsesWithDelay_other)

lemma bookkeepingI:
  assumes "\<And>k. k \<in> fst ` set (processingQueue s) \<Longrightarrow> k \<in> set (inFlight s) \<or> k \<in> set (settled s)"
    and "\<And>given remaining. (given, remaining) \<in> set (stopWaits s) \<Longrightarrow> set given \<subseteq> set remaining \<union> set (settled s)"
    and "\<And>given. given \<in> set (completedLogs s) \<Longrightarrow> set given \<subseteq> set (settled s)"
  shows "settledBookkeeping s"
  unfolding settledBookkeeping_def using assms by (intro conjI ballI) auto

lemma bookkeepingD:
  assumes "settledBookkeeping s"
  shows "k \<in> fst ` set (processingQueue s) \<Longrightarrow> k \<in> set (inFlight s) \<or> k \<in> set (settled s)"
    and "(given, remaining) \<in> set (stopWaits s) \<Longrightarrow> set given \<subseteq> set remaining \<union> set (settled s)"
    and "given \<in> set (completedLogs s) \<Longrightarrow> set given \<subseteq> set (settled s)"
  using assms unfolding settledBookkeeping_def by fastforce+

lemma perform_bookkeeping:
  assumes "settledBookkeeping s"
  shows "settledBookkeeping (perform cap now e s)"
proof (rule bookkeepingI)
  fix k assume "k \<in> fst ` set (processingQueue (perform cap now e s))"
  with perform_keys[of cap now e s] have "k \<in> fst ` set (processingQueue s)" by blast
  from bookkeepingD(1)[OF assms this]
  show "k \<in> set (inFlight (perform cap now e s)) \<or> k \<in> set (settled (perform cap now e s))"
    by (simp add: perform_bookkeeping_fields)
next
  fix given remaining assume "(given, remaining) \<in> set (stopWaits (perform cap now e s))"
  then have "(given, remaining) \<in> set (stopWaits s)" by (simp add: perform_bookkeeping_fields)
  from bookkeepingD(2)[OF assms this]
  show "set given \<subseteq> set remaining \<union> set (settled (perform cap now e s))"
    by (simp add: perform_bookkeeping_fields)
next
  fix given assume "given \<in> set (completedLogs (perform cap now e s))"
  then have "given \<in> set (completedLogs s)" by (simp add: perform_bookkeeping_fields)
  from bookkeepingD(3)[OF assms this]
  show "set given \<subseteq> set (settled (perform cap now e s))"
    by (simp add: perform_bookkeeping_fields)
qed

lemma performAll_bookkeeping:
  "settledBookkeeping s \<Longrightarrow> settledBookkeeping (performAll cap now es s)"
  by (induction es arbitrary: s) (simp_all add: perform_bookkeeping)

lemma performAll_settled: "settled (performAll cap now es s) = settled s"
  by (induction es arbitrary: s) (simp_all add: perform_bookkeeping_fields)

lemma register_bookkeeping:
  assumes "settledBookkeeping s'" and "c \<in> set (inFlight s') \<or> c \<in> set (settled s')"
  shows "settledBookkeeping (s'\<lparr>processingQueue := AList.update c item (processingQueue s')\<rparr>)"
  using assms unfolding settledBookkeeping_def by (auto simp: dom_update)

lemma inFlight_bookkeeping:
  assumes "settledBookkeeping s'"
  shows "settledBookkeeping (s'\<lparr>inFlight := inFlight s' @ [c]\<rparr>)"
  using assms unfolding settledBookkeeping_def by auto

lemma settled_bookkeeping:
  assumes "settledBookkeeping s'"
  shows "settledBookkeeping (s'\<lparr>settled := settled s' @ [c]\<rparr>)"
  using assms unfolding settledBookkeeping_def by auto

lemma callProcessAudioChunk_bookkeeping:
  assumes "settledBookkeeping s"
  shows "settledBookkeeping (callProcessAudioChunk cap now audioBlob c s)
         \<and> (c \<in> set (inFlight (callProcessAudioChunk cap now audioBlob c s))
            \<or> c \<in> set (settled (callProcessAudioChunk cap now audioBlob c s)))"
proof (cases "earlyReturn audioBlob")
  case True
  with settled_bookkeeping[OF assms, of c] show ?thesis
    by (simp add: callProcessAudioChunk_def)
next
  case False
  let ?s' = "performAll cap now (processAudioChunk_sync c now) s"
  have "settledBookkeeping ?s'" using assms by (rule performAll_bookkeeping)
  from inFlight_bookkeeping[OF this, of c] False show ?thesis
    by (simp add: callProcessAudioChunk_def performAll_inFlight)
qed

lemma callProcessAudioChunk_basic_bookkeeping:
  assumes "settledBookkeeping s"
  shows "settledBookkeeping (callProcessAudioChunk_basic cap now c s)
         \<and> c \<in> set (inFlight (callProcessAudioChunk_basic cap now c s))"
proof -
  let ?s' = "performAll cap now (processAudioChunk_sync_basic c now) s"
  have "settledBookkeeping ?s'" using assms by (rule performAll_bookkeeping)
  from inFlight_bookkeeping[OF this, of c] show ?thesis
    by (simp add: callProcessAudioChunk_basic_def performAll_inFlight)
qed

lemma onstop_bookkeeping:
  "settledBookkeeping s \<Longrightarrow> settledBookkeeping (onstop cap now c sizes s)"
  using callProcessAudioChunk_bookkeeping[of s cap now _ c] register_bookkeeping
  by (simp add: onstop_def Let_def)

lemma onstop_basic_bookkeeping:
  "settledBookkeeping s \<Longrightarrow> settledBookkeeping (onstop_basic cap now c sizes s)"
  using callProcessAudioChunk_basic_bookkeeping[of s cap now c] register_bookkeeping
  by (simp add: onstop_basic_def Let_def)

lemma resolvePromise_bookkeeping:
  assumes "settledBookkeeping s"
  shows "settledBookkeeping (resolvePromise c s)"
proof (rule bookkeepingI)
  fix k assume "k \<in> fst ` set (processingQueue (resolvePromise c s))"
  then have "k \<in> fst ` set (processingQueue s)" by (simp add: resolvePromise_other)
  from bookkeepingD(1)[OF assms this]
  show "k \<in> set (inFlight (resolvePromise c s)) \<or> k \<in> set (settled (resolvePromise c s))"
    by (cases "k = c") (auto simp: resolvePromise_fields)
next
  fix given remaining assume "(given, remaining) \<in> set (stopWaits (resolvePromise c s))"
  then obtain rem0 where r: "(given, rem0) \<in> set (stopWaits s)" "remaining = removeAll c rem0"
    by (auto simp: resolvePromise_fields)
  from bookkeepingD(2)[OF assms r(1)] r(2)
  show "set given \<subseteq> set remaining \<union> set (settled (resolvePromise c s))"
    by (auto simp: resolvePromise_fields)
next
  fix given assume "given \<in> set (completedLogs (resolvePromise c s))"
  then consider "given \<in> set (completedLogs s)"
    | rem0 where "(given, rem0) \<in> set (stopWaits s)" "removeAll c rem0 = []"
    by (auto simp: resolvePromise_fields)
  then show "set given \<subseteq> set (settled (resolvePromise c s))"
  proof cases
    case 1
    from bookkeepingD(3)[OF assms this] show ?thesis by (auto simp: resolvePromise_fields)
  next
    case 2
    from 2(2) have "set rem0 \<subseteq> {c}"
      by (metis empty_iff insert_iff list.set(1) set_removeAll subsetI Diff_iff)
    with bookkeepingD(2)[OF assms 2(1)] show ?thesis by (auto simp: resolvePromise_fields)
  qed
qed

lemma awaitQueue_bookkeeping:
  assumes "settledBookkeeping s"
  shows "settledBookkeeping (awaitQueue s)"
proof (cases "filter (\<lambda>chunkId. chunkId \<in> set (inFlight s)) (map fst (processingQueue s)) = []")
  case True
  then have "\<forall>k \<in> fst ` set (processingQueue s). k \<notin> set (inFlight s)"
    by (auto simp: filter_empty_conv)
  with assms have "set (map fst (processingQueue s)) \<subseteq> set (settled s)"
    unfolding settledBookkeeping_def by auto
  with assms True show ?thesis
    unfolding settledBookkeeping_def awaitQueue_def Let_def by auto
next
  case False
  with assms show ?thesis
    unfolding settledBookkeeping_def awaitQueue_def Let_def by auto
qed

lemma bookkeeping_other_fields:
  assumes "settledBookkeeping s"
    and "processingQueue s' = processingQueue s" and "inFlight s' = inFlight s"
    and "settled s' = settled s" and "stopWaits s' = stopWaits s"
    and "completedLogs s' = completedLogs s"
  shows "settledBookkeeping s'"
  using assms unfolding settledBookkeeping_def by simp

lemma handle_bookkeeping:
  assumes "settledBookkeeping s"
  shows "settledBookkeeping (handle v cap now ev s)"
proof (cases ev)
  case StartListening
  show ?thesis
    by (rule bookkeeping_other_fields[OF assms]; cases v;
        simp add: StartListening startListening_def startListening_basic_def
          startContinuousRecording_basic_def recordChunk_basic_def Let_def)
next
  case StartContinuousRecording
  show ?thesis
    by (rule bookkeeping_other_fields[OF assms]; cases v;
        simp add: StartContinuousRecording startContinuousRecording_def
          startContinuousRecording_basic_def recordChunk_basic_def Let_def)
next
  case RecordChunk
  show ?thesis
    by (rule bookkeeping_other_fields[OF assms]; cases v;
        simp add: RecordChunk recordChunk_def recordChunk_basic_def Let_def)
next
  case (OnStop c sizes)
  let ?s = "s\<lparr>recorders := remove1 c (recorders s)\<rparr>"
  have "settledBookkeeping ?s"
    by (rule bookkeeping_other_fields[OF assms]) simp_all
  from onstop_bookkeeping[OF this] onstop_basic_bookkeeping[OF this] OnStop assms
  show ?thesis by (cases v) (simp_all add: Let_def)
next
  case (Settle c out)
  have e: "settledBookkeeping (settle cap now c out s)"
    using assms performAll_bookkeeping[OF assms] resolvePromise_bookkeeping
    by (simp add: settle_def)
  have b: "settledBookkeeping (settle_basic cap now c out s)"
    using assms performAll_bookkeeping[OF assms] resolvePromise_bookkeeping
    by (simp add: settle_basic_def split: option.splits)
  from Settle e b show ?thesis by (cases v) simp_all
next
  case FlushTimer
  show ?thesis
    by (rule bookkeeping_other_fields[OF assms]) (simp_all add: FlushTimer fireFlushTimer_other)
next
  case StopListening
  have a1: "settledBookkeeping (s\<lparr>continuousRecording := False, recordingInterval := False,
               pendingResponses := []\<rparr>)"
    by (rule bookkeeping_other_fields[OF assms]) simp_all
  have a2: "settledBookkeeping (s\<lparr>continuousRecording := False, recordingInterval := False\<rparr>)"
    by (rule bookkeeping_other_fields[OF assms]) simp_all
  have e: "settledBookkeeping (stopListening s)"
    by (rule bookkeeping_other_fields[OF awaitQueue_bookkeeping[OF a1]])
       (simp_all add: stopListening_def stopContinuousRecording_def)
  have b: "settledBookkeeping (stopListening_basic s)"
    by (rule bookkeeping_other_fields[OF awaitQueue_bookkeeping[OF a2]])
       (simp_all add: stopListening_basic_def stopContinuousRecording_basic_def)
  from StopListening e b show ?thesis by (cases v) simp_all
next
  case ClearResponses
  show ?thesis
    by (rule bookkeeping_other_fields[OF assms]; cases v;
        simp add: ClearResponses clearResponses_def)
qed

lemma run_bookkeeping:
  "settledBookkeeping s \<Longrightarrow> settledBookkeeping (run v cap s evs)"
proof (induction evs arbitrary: s)
  case Nil
  then show ?case by simp
next
  case (Cons ev evs)
  have "settledBookkeeping (s\<lparr>clock := fst ev\<rparr>)"
    by (rule bookkeeping_other_fields[OF Cons.prems]) simp_all
  then have "settledBookkeeping (step v cap ev s)"
    using Cons.prems by (simp add: step_def handle_bookkeeping)
  then show ?case using Cons.IH by simp
qed

lemma init_bookkeeping: "settledBookkeeping init"
  by (simp add: settledBookkeeping_def init_def)

text \<open>
  C6, as stated: the microphone is released only after the calls in flight have settled,
  and no segment is admitted after the stop. In the basic session \<open>stopListening\<close> runs
  at 1003500 with one call in flight: right after it the stream and the audio context are
  released while that call is still in flight and nothing has settled; the recorders of
  the second and of the third chunk are still recording, and the \<open>onstop\<close> of the second
  then admits its chunk.
\<close>

theorem stop_before_settlement_counterexample:
  "stream (run Basic (initialRender Basic ''python'') init (butlast basicStop))
   \<and> inFlight (run Basic (initialRender Basic ''python'') init (butlast basicStop))
       = [''chunk_1000300_1'']
   \<and> \<not> stream (run Basic (initialRender Basic ''python'') init basicStop)
   \<and> \<not> audioContext (run Basic (initialRender Basic ''python'') init basicStop)
   \<and> inFlight (run Basic (initialRender Basic ''python'') init basicStop) = [''chunk_1000300_1'']
   \<and> settled (run Basic (initialRender Basic ''python'') init basicStop) = []
   \<and> recorders (run Basic (initialRender Basic ''python'') init basicStop)
       = [''chunk_1001700_2'', ''chunk_1003100_3'']
   \<and> inFlight (run Basic (initialRender Basic ''python'') init
         (basicStop @ [(1003500, OnStop ''chunk_1001700_2'' [28000])]))
       = [''chunk_1000300_1'', ''chunk_1001700_2'']"
  by code_simp

text \<open>
  C6, amended: \<open>stopListening\<close> clears the recording flag and the interval, so that
  \<open>recordChunk\<close> starts no further recording; it releases the media stream and the audio
  context in the same call, without waiting; the calls in flight stay in flight, with
  their queue entries. With calls in flight it logs nothing itself and waits for exactly
  these calls; in every state that any sequence of events reaches, a logged
  \<open>'All audio processing completed'\<close> was given only calls that have settled.
\<close>

theorem stop_releases_without_waiting:
  "\<not> stream (handle v cap now StopListening s)
   \<and> \<not> audioContext (handle v cap now StopListening s)
   \<and> \<not> continuousRecording (handle v cap now StopListening s)
   \<and> \<not> recordingInterval (handle v cap now StopListening s)
   \<and> inFlight (handle v cap now StopListening s) = inFlight s
   \<and> settled (handle v cap now StopListening s) = settled s
   \<and> processingQueue (handle v cap now StopListening s) = processingQueue s
   \<and> handle v cap now' RecordChunk (handle v cap now StopListening s)
       = handle v cap now StopListening s
   \<and> (filter (\<lambda>c. c \<in> set (inFlight s)) (map fst (processingQueue s)) \<noteq> [] \<longrightarrow>
        completedLogs (handle v cap now StopListening s) = completedLogs s
        \<and> stopWaits (handle v cap now StopListening s)
            = stopWaits s @ [(map fst (processingQueue s),
                filter (\<lambda>c. c \<in> set (inFlight s)) (map fst (processingQueue s)))])
   \<and> (\<forall>given \<in> set (completedLogs (run v cap init evs)).
        set given \<subseteq> set (settled (run v cap init evs)))"
proof -
  have stop: "\<not> stream (handle v cap now StopListening s)
   \<and> \<not> audioContext (handle v cap now StopListening s)
   \<and> \<not> continuousRecording (handle v cap now StopListening s)
   \<and> \<not> recordingInterval (handle v cap now StopListening s)
   \<and> inFlight (handle v cap now StopListening s) = inFlight s
   \<and> settled (handle v cap now StopListening s) = settled s
   \<and> processingQueue (handle v cap now StopListening s) = processingQueue s"
    by (cases v) (simp_all add: stopListening_def stopListening_basic_def
        stopContinuousRecording_def stopContinuousRecording_basic_def awaitQueue_other)
  then have "\<not> continuousRecording (handle v cap now StopListening s)" by blast
  then have cyc: "handle v cap now' RecordChunk (handle v cap now StopListening s)
       = handle v cap now StopListening s"
    by (cases v) (simp_all add: recordChunk_def recordChunk_basic_def)
  have wait: "filter (\<lambda>c. c \<in> set (inFlight s)) (map fst (processingQueue s)) \<noteq> [] \<longrightarrow>
        completedLogs (handle v cap now StopListening s) = completedLogs s
        \<and> stopWaits (handle v cap now StopListening s)
            = stopWaits s @ [(map fst (processingQueue s),
                filter (\<lambda>c. c \<in> set (inFlight s)) (map fst (processingQueue s)))]"
    by (cases v) (simp_all add: stopListening_def stopListening_basic_def
        stopContinuousRecording_def stopContinuousRecording_basic_def awaitQueue_def Let_def)
  have "settledBookkeeping (run v cap init evs)"
    using init_bookkeeping by (rule run_bookkeeping)
  then have logs: "\<forall>given \<in> set (completedLogs (run v cap init evs)).
        set given \<subseteq> set (settled (run v cap init evs))"
    using bookkeepingD(3) by blast
  from stop cyc wait logs show ?thesis by blast
qed

theorem stop_releases_without_waiting_witness:
  "filter (\<lambda>c. c \<in> set (inFlight (run Basic (initialRender Basic ''python'') init (butlast basicStop))))
      (map fst (processingQueue (run Basic (initialRender Basic ''python'') init (butlast basicStop))))
     = [''chunk_1000300_1'']
   \<and> stopWaits (run Basic (initialRender Basic ''python'') init basicStop)
       = [([''chunk_1000300_1''], [''chunk_1000300_1''])]
   \<and> completedLogs (run Basic (initialRender Basic ''python'') init basicStop) = []
   \<and> completedLogs (run Basic (initialRender Basic ''python'') init
         (basicStop @ [(1004100, Settle ''chunk_1000300_1'' FetchFailed)]))
       = [[''chunk_1000300_1'']]
   \<and> [''chunk_1000300_1''] \<in> set (completedLogs (run Basic (initialRender Basic ''python'') init
         (basicStop @ [(1004100, Settle ''chunk_1000300_1'' FetchFailed)])))
   \<and> set [''chunk_1000300_1''] \<subseteq> set (settled (run Basic (initialRender Basic ''python'') init
         (basicStop @ [(1004100, Settle ''chunk_1000300_1'' FetchFailed)])))"
proof -
  have a: "filter (\<lambda>c. c \<in> set (inFlight (run Basic (initialRender Basic ''python'') init (butlast basicStop))))
      (map fst (processingQueue (run Basic (initialRender Basic ''python'') init (butlast basicStop))))
     = [''chunk_1000300_1'']"
    by code_simp
  have b: "stopWaits (run Basic (initialRender Basic ''python'') init basicStop)
       = [([''chunk_1000300_1''], [''chunk_1000300_1''])]"
    by code_simp
  have c: "completedLogs (run Basic (initialRender Basic ''python'') init basicStop) = []"
    by code_simp
  have d: "completedLogs (run Basic (initialRender Basic ''python'') init
         (basicStop @ [(1004100, Settle ''chunk_1000300_1'' FetchFailed)]))
       = [[''chunk_1000300_1'']]"
    by code_simp
  from a b c d
    stop_releases_without_waiting[where v = Basic and cap = "initialRender Basic ''python''"
      and evs = "basicStop @ [(1004100, Settle ''chunk_1000300_1'' FetchFailed)]"
      and s = "run Basic (initialRender Basic ''python'') init (butlast basicStop)" and now = 1003500]
  show ?thesis by simp
qed

section \<open>Properties of the visible list\<close>

lemma length_updatedPrev: "length (updatedPrev prev) = length prev"
  by (simp add: updatedPrev_def)

lemma nth_updatedPrev:
  "i < length prev \<Longrightarrow>
   updatedPrev prev ! i =
     (if length prev > 15 \<and> i > 10 then (prev ! i)\<lparr>isStale := Some True\<rparr> else prev ! i)"
  by (simp add: updatedPrev_def nth_enumerate_eq)

lemma length_flushResponses: "length (flushResponses adds prev) \<le> 20"
  by (simp add: flushResponses_def)

lemma updateResponsesWithDelay_cap:
  "length (responses s) \<le> 20 \<Longrightarrow> length (responses (updateResponsesWithDelay cap now r s)) \<le> 20"
  by (simp add: updateResponsesWithDelay_def Let_def length_flushResponses)

lemma perform_responses_cap:
  assumes "length (responses s) \<le> 20"
  shows "length (responses (perform cap now e s)) \<le> 20"
proof (cases e)
  case (RemoveResponse c)
  from le_trans[OF length_filter_le assms] RemoveResponse show ?thesis by simp
qed (simp_all add: assms updateResponsesWithDelay_cap insertPlaceholder_basic_def)

lemma performAll_responses_cap:
  "length (responses s) \<le> 20 \<Longrightarrow> length (responses (performAll cap now es s)) \<le> 20"
  by (induction es arbitrary: s) (simp_all add: perform_responses_cap)

lemma fireFlushTimer_responses_cap:
  "length (responses s) \<le> 20 \<Longrightarrow> length (responses (fireFlushTimer now s)) \<le> 20"
  by (simp add: fireFlushTimer_def delayedUpdate_def length_flushResponses split: option.splits)

lemma awaitQueue_responses: "responses (awaitQueue s) = responses s"
  by (simp add: awaitQueue_def Let_def)

lemma handle_responses_cap:
  assumes "length (responses s) \<le> 20"
  shows "length (responses (handle v cap now ev s)) \<le> 20"
proof (cases ev)
  case StartListening
  with assms show ?thesis
    by (cases v) (simp_all add: startListening_def startListening_basic_def
        startContinuousRecording_basic_def recordChunk_basic_def Let_def)
next
  case StartContinuousRecording
  with assms show ?thesis
    by (cases v) (simp_all add: startContinuousRecording_def
        startContinuousRecording_basic_def recordChunk_basic_def Let_def)
next
  case RecordChunk
  with assms show ?thesis
    by (cases v) (simp_all add: recordChunk_def recordChunk_basic_def Let_def)
next
  case (OnStop c sizes)
  let ?s = "s\<lparr>recorders := remove1 c (recorders s)\<rparr>"
  have a: "length (responses ?s) \<le> 20" using assms by simp
  have e: "length (responses (onstop cap now c sizes ?s)) \<le> 20"
    using performAll_responses_cap[OF a] assms
    by (simp add: onstop_def callProcessAudioChunk_def Let_def)
  have b: "length (responses (onstop_basic cap now c sizes ?s)) \<le> 20"
    using performAll_responses_cap[OF a] assms
    by (simp add: onstop_basic_def callProcessAudioChunk_basic_def Let_def)
  from OnStop e b assms show ?thesis by (cases v) (simp_all add: Let_def)
next
  case (Settle c out)
  have e: "length (responses (settle cap now c out s)) \<le> 20"
    using performAll_responses_cap[OF assms] assms
    by (simp add: settle_def resolvePromise_other)
  have b: "length (responses (settle_basic cap now c out s)) \<le> 20"
    using performAll_responses_cap[OF assms] assms
    by (simp add: settle_basic_def resolvePromise_other split: option.splits)
  from Settle e b show ?thesis by (cases v) simp_all
next
  case FlushTimer
  with assms show ?thesis by (simp add: fireFlushTimer_responses_cap)
next
  case StopListening
  with assms show ?thesis
    by (cases v) (simp_all add: stopListening_def stopListening_basic_def
        stopContinuousRecording_def stopContinuousRecording_basic_def awaitQueue_responses)
next
  case ClearResponses
  with assms show ?thesis by (cases v) (simp_all add: clearResponses_def)
qed

lemma run_responses_cap:
  "length (responses s) \<le> 20 \<Longrightarrow> length (responses (run v cap s evs)) \<le> 20"
  by (induction evs arbitrary: s) (simp_all add: step_def handle_responses_cap)

text \<open>
  C5, as stated: once the visible list has more than 10 entries, the entries beyond index
  10 are stale after the next flush. The stale marking is guarded by
  \<open>prev.length > 15\<close>: a list of twelve entries goes through a flush with none of its
  entries marked, whether index 10 is counted before or after the new entry is put in
  front.
\<close>

theorem stale_threshold_counterexample:
  "length twelveResponses > 10
   \<and> length (flushResponses [placeholderResponse ''chunk_1000013_13'' 1000013] twelveResponses) = 13
   \<and> isStale (flushResponses [placeholderResponse ''chunk_1000013_13'' 1000013] twelveResponses ! 11)
       \<noteq> Some True
   \<and> isStale (flushResponses [placeholderResponse ''chunk_1000013_13'' 1000013] twelveResponses ! 12)
       \<noteq> Some True"
  by (simp add: twelveResponses_def flushResponses_def updatedPrev_def sampleResponse_def)

text \<open>
  C5, amended: after every flush the visible list has at most 20 entries (and at most 20
  after the basic component's placeholder insertion); a list of at most 15 entries is
  carried over unmarked; when the list had more than 15 entries before the flush, each of
  its entries beyond index 10 that is still among the first 20 is stale after the flush.
  In every state that any sequence of events of either component reaches, the visible
  list has at most 20 entries.
\<close>

theorem flush_cap_and_stale:
  "length (flushResponses responsesToAdd prev) \<le> 20
   \<and> length (insertPlaceholder_basic p prev) \<le> 20
   \<and> (length prev \<le> 15 \<longrightarrow> flushResponses responsesToAdd prev = take 20 (responsesToAdd @ prev))
   \<and> (length prev > 15 \<longrightarrow>
        (\<forall>i. 10 < i \<and> i < length prev \<and> length responsesToAdd + i < 20 \<longrightarrow>
           isStale (flushResponses responsesToAdd prev ! (length responsesToAdd + i)) = Some True))
   \<and> length (responses (run v cap init evs)) \<le> 20"
proof -
  have cap: "length (flushResponses responsesToAdd prev) \<le> 20"
    by (simp add: flushResponses_def)
  have cap_basic: "length (insertPlaceholder_basic p prev) \<le> 20"
    by (simp add: insertPlaceholder_basic_def)
  have small: "length prev \<le> 15 \<longrightarrow> flushResponses responsesToAdd prev = take 20 (responsesToAdd @ prev)"
    by (simp add: flushResponses_def updatedPrev_def)
  have stale: "isStale (flushResponses responsesToAdd prev ! (length responsesToAdd + i)) = Some True"
    if "length prev > 15" "10 < i" "i < length prev" "length responsesToAdd + i < 20" for i
  proof -
    have "flushResponses responsesToAdd prev ! (length responsesToAdd + i)
            = (responsesToAdd @ updatedPrev prev) ! (length responsesToAdd + i)"
      using that by (simp add: flushResponses_def)
    also have "\<dots> = updatedPrev prev ! i"
      by (simp add: nth_append)
    also have "\<dots> = (prev ! i)\<lparr>isStale := Some True\<rparr>"
      using that by (simp add: nth_updatedPrev)
    finally show ?thesis by simp
  qed
  have "length (responses init) \<le> 20" by (simp add: init_def)
  then have inv: "length (responses (run v cap init evs)) \<le> 20"
    by (rule run_responses_cap)
  from cap cap_basic small stale inv show ?thesis by blast
qed

theorem flush_cap_and_stale_witness:
  "length sixteenResponses > 15
   \<and> 10 < (11::nat) \<and> 11 < length sixteenResponses
   \<and> length [placeholderResponse ''chunk_1000017_17'' 1000017] + 11 < 20
   \<and> isStale (flushResponses [placeholderResponse ''chunk_1000017_17'' 1000017] sixteenResponses ! 12)
       = Some True
   \<and> length twelveResponses \<le> 15
   \<and> flushResponses [placeholderResponse ''chunk_1000013_13'' 1000013] twelveResponses
       = placeholderResponse ''chunk_1000013_13'' 1000013 # twelveResponses"
proof -
  have l16: "length sixteenResponses = 16" by (simp add: sixteenResponses_def)
  have l12: "length twelveResponses = 12" by (simp add: twelveResponses_def)
  have g16: "length sixteenResponses > 15" using l16 by simp
  from flush_cap_and_stale[of "[placeholderResponse ''chunk_1000017_17'' 1000017]" sixteenResponses] g16
  have "10 < (11::nat) \<and> 11 < length sixteenResponses
          \<and> length [placeholderResponse ''chunk_1000017_17'' 1000017] + 11 < 20 \<longrightarrow>
        isStale (flushResponses [placeholderResponse ''chunk_1000017_17'' 1000017] sixteenResponses
          ! (length [placeholderResponse ''chunk_1000017_17'' 1000017] + 11)) = Some True"
    by blast
  then have "isStale (flushResponses [placeholderResponse ''chunk_1000017_17'' 1000017] sixteenResponses
          ! 12) = Some True"
    using l16 by simp
  moreover
  from flush_cap_and_stale[of "[placeholderResponse ''chunk_1000013_13'' 1000013]" twelveResponses]
  have "flushResponses [placeholderResponse ''chunk_1000013_13'' 1000013] twelveResponses
          = take 20 ([placeholderResponse ''chunk_1000013_13'' 1000013] @ twelveResponses)"
    using l12 by simp
  ultimately show ?thesis using l16 l12 by simp
qed

end
